theory Spec2Isabelle
  imports Main "HOL-Library.Word" "HOL-Library.Multiset"
begin

unbundle bit_operations_syntax

section \<open>The file indexer of \<^verbatim>\<open>c++/cpp-indexer.cpp\<close>\<close>

text \<open>
  The development follows the source file top to bottom: the streaming hash (class
  \<^verbatim>\<open>SHA256\<close>), the \<^verbatim>\<open>Record\<close> structure, the job queue, the worker loop, the directory
  scan of \<^verbatim>\<open>indexDirectory\<close>, the two queries and \<^verbatim>\<open>main\<close>. Machine integers are
  words of the width the source declares, so every addition, multiplication and shift
  wraps as it does in C++.
\<close>

type_synonym u8 = "8 word"
type_synonym u32 = "32 word"
type_synonym u64 = "64 word"

subsection \<open>Class \<^verbatim>\<open>SHA256\<close>: state and bit mixing functions\<close>

text \<open>
  The three data members: the eight working words \<^verbatim>\<open>h\<close>, the byte vector \<^verbatim>\<open>buffer\<close>
  and the 64-bit counter \<^verbatim>\<open>bitlen\<close>.
\<close>

record SHA256 =
  h :: "u32 list"
  buffer :: "u8 list"
  bitlen :: u64

definition SHA256_init :: SHA256 where
  "SHA256_init = \<lparr>h = [0x6a09e667, 0xbb67ae85, 0x3c6ef372, 0xa54ff53a,
                        0x510e527f, 0x9b05688c, 0x1f83d9ab, 0x5be0cd19],
                   buffer = [], bitlen = 0\<rparr>"

definition rotr :: "u32 \<Rightarrow> nat \<Rightarrow> u32" where
  "rotr x n = drop_bit n x OR push_bit (32 - n) x"

text \<open>\<^verbatim>\<open>choose\<close> of the source; the name is taken by the binomial coefficient.\<close>

definition choose_fn :: "u32 \<Rightarrow> u32 \<Rightarrow> u32 \<Rightarrow> u32" where
  "choose_fn e f g = (e AND f) XOR (NOT e AND g)"

definition majority :: "u32 \<Rightarrow> u32 \<Rightarrow> u32 \<Rightarrow> u32" where
  "majority a b c = (a AND b) XOR (a AND c) XOR (b AND c)"

definition sig0 :: "u32 \<Rightarrow> u32" where
  "sig0 x = rotr x 7 XOR rotr x 18 XOR drop_bit 3 x"

definition sig1 :: "u32 \<Rightarrow> u32" where
  "sig1 x = rotr x 17 XOR rotr x 19 XOR drop_bit 10 x"

definition ep0 :: "u32 \<Rightarrow> u32" where
  "ep0 x = rotr x 2 XOR rotr x 13 XOR rotr x 22"

definition ep1 :: "u32 \<Rightarrow> u32" where
  "ep1 x = rotr x 6 XOR rotr x 11 XOR rotr x 25"

subsection \<open>\<^verbatim>\<open>SHA256::transform\<close>\<close>

text \<open>
  The table \<^verbatim>\<open>k\<close> of the 64 round constants, local to \<^verbatim>\<open>transform\<close> in the source,
  row by row as the source lists it.
\<close>

definition k_tbl :: "u32 list" where
  "k_tbl = [
    0x428A2F98,0x71374491,0xB5C0FBCF,0xE9B5DBA5,
    0x3956C25B,0x59F111F1,0x923F82A4,0xAB1C5ED5,
    0xD807AA98,0x12835B01,0x243185BE,0x550C7DC3,
    0x72BE5D74,0x80DEB1FE,0x9BDC06A7,0xC19BF174,
    0xE49B69C1,0xEFBE4786,0x0FC19DC6,0x240CA1CC,
    0x2DE92C6F,0x4A7484AA,0x5CB0A9DC,0x76F988DA,
    0x983E5152,0xA831C66D,0xB00327C8,0xBF597FC7,
    0xC6E00BF3,0xD5A79147,0x06CA6351,0x14292967,
    0x27B70A85,0x2E1B2138,0x4D2C6DFC,0x53380D13,
    0x650A7354,0x766A0ABB,0x81C2C92E,0x92722C85,
    0xA2BFE8A1,0xA81A664B,0xC24B8B70,0xC76C51A3,
    0xD192E819,0xD6990624,0xF40E3585,0x106AA070,
    0x19A4C116,0x1E376C08,0x2748774C,0x34B0BCB5,
    0x391C0CB3,0x4ED8AA4A,0x5B9CCA4F,0x682E6FF3,
    0x748F82EE,0x78A5636F,0x84C87814,0x8CC70208,
    0x90BEFFFA,0xA4506CEB,0xBEF9A3F7,0xC67178F2]"

text \<open>
  First loop of \<^verbatim>\<open>transform\<close>: word \<open>i\<close> of the schedule is read big-endian from
  bytes \<open>4i .. 4i+3\<close> of the chunk. The source shifts the bytes as \<^verbatim>\<open>int\<close> and stores
  the result in a \<^verbatim>\<open>uint32\<close>, which keeps the low 32 bits. Every caller passes at
  least 64 bytes, so the reads are in range.
\<close>

definition load_word :: "u8 list \<Rightarrow> nat \<Rightarrow> u32" where
  "load_word chunk i =
     push_bit 24 (ucast (chunk ! (i * 4))) OR
     push_bit 16 (ucast (chunk ! (i * 4 + 1))) OR
     push_bit 8 (ucast (chunk ! (i * 4 + 2))) OR
     ucast (chunk ! (i * 4 + 3))"

text \<open>Second loop: \<^verbatim>\<open>w[i] = sig1(w[i-2]) + w[i-7] + sig0(w[i-15]) + w[i-16]\<close> for \<open>i = 16..63\<close>.\<close>

definition expand_step :: "u32 list \<Rightarrow> nat \<Rightarrow> u32 list" where
  "expand_step w i =
     w @ [sig1 (w ! (i - 2)) + w ! (i - 7) + sig0 (w ! (i - 15)) + w ! (i - 16)]"

definition schedule :: "u8 list \<Rightarrow> u32 list" where
  "schedule chunk = foldl expand_step (map (load_word chunk) [0..<16]) [16..<64]"

text \<open>Third loop: one round on the eight local variables \<^verbatim>\<open>a .. hh\<close>.\<close>

type_synonym vars = "u32 \<times> u32 \<times> u32 \<times> u32 \<times> u32 \<times> u32 \<times> u32 \<times> u32"

fun round_step :: "u32 list \<Rightarrow> vars \<Rightarrow> nat \<Rightarrow> vars" where
  "round_step w (a, b, c, d, e, f, g, hh) i =
     (let t1 = hh + ep1 e + choose_fn e f g + k_tbl ! i + w ! i;
          t2 = ep0 a + majority a b c
      in (t1 + t2, a, b, c, d + t1, e, f, g))"

text \<open>\<^verbatim>\<open>transform\<close> itself: it reads \<^verbatim>\<open>h\<close>, runs the 64 rounds and adds the result to \<^verbatim>\<open>h\<close>.\<close>

definition transform :: "u32 list \<Rightarrow> u8 list \<Rightarrow> u32 list" where
  "transform hs chunk =
     (let w = schedule chunk;
          (a, b, c, d, e, f, g, hh) =
             foldl (round_step w)
               (hs ! 0, hs ! 1, hs ! 2, hs ! 3, hs ! 4, hs ! 5, hs ! 6, hs ! 7) [0..<64]
      in [hs ! 0 + a, hs ! 1 + b, hs ! 2 + c, hs ! 3 + d,
          hs ! 4 + e, hs ! 5 + f, hs ! 6 + g, hs ! 7 + hh])"

subsection \<open>\<^verbatim>\<open>SHA256::update\<close>\<close>

text \<open>
  The \<^verbatim>\<open>while (buffer.size() >= 64)\<close> loop: compress the first 64 bytes, erase them.
\<close>

function consume :: "SHA256 \<Rightarrow> SHA256" where
  "consume c =
     (if 64 \<le> length (buffer c)
      then consume (c\<lparr>h := transform (h c) (buffer c), buffer := drop 64 (buffer c)\<rparr>)
      else c)"
  by pat_completeness auto
termination
  by (relation "measure (\<lambda>c. length (buffer c))") auto

declare consume.simps [simp del]

text \<open>
  \<^verbatim>\<open>update(data, len)\<close>: append, add \<^verbatim>\<open>len * 8\<close> to the counter (a \<^verbatim>\<open>size_t\<close> product
  added to a \<^verbatim>\<open>uint64_t\<close>, both 64 bits wide), then drain full blocks.
\<close>

definition update :: "SHA256 \<Rightarrow> u8 list \<Rightarrow> SHA256" where
  "update c data =
     consume (c\<lparr>buffer := buffer c @ data,
                bitlen := bitlen c + of_nat (length data) * 8\<rparr>)"

subsection \<open>\<^verbatim>\<open>SHA256::final\<close>\<close>

text \<open>
  The loop \<^verbatim>\<open>while (buffer.size() % 64 != 56) buffer.push_back(0)\<close>. It ends because
  the distance \<open>pad_gap\<close> from the size modulo 64 to 56, going upwards, shrinks with
  every byte pushed.
\<close>

definition pad_gap :: "nat \<Rightarrow> nat" where
  "pad_gap m = (if m \<le> 56 then 56 - m else 120 - m)"

function pad_zeros :: "u8 list \<Rightarrow> u8 list" where
  "pad_zeros buf = (if length buf mod 64 \<noteq> 56 then pad_zeros (buf @ [0]) else buf)"
  by pat_completeness auto
termination
proof (relation "measure (\<lambda>buf. pad_gap (length buf mod 64))")
  show "wf (measure (\<lambda>buf :: u8 list. pad_gap (length buf mod 64)))"
    by simp
next
  fix buf :: "u8 list"
  assume ne: "length buf mod 64 \<noteq> 56"
  define m where "m = length buf mod 64"
  have m: "m < 64" "m \<noteq> 56"
    using ne by (simp_all add: m_def)
  have "Suc (length buf) mod 64 = (if m = 63 then 0 else Suc m)"
    by (simp add: mod_Suc m_def)
  moreover have "pad_gap (if m = 63 then 0 else Suc m) < pad_gap m"
    using m by (auto simp: pad_gap_def)
  ultimately show "(buf @ [0], buf) \<in> measure (\<lambda>buf. pad_gap (length buf mod 64))"
    by (simp add: m_def)
qed

declare pad_zeros.simps [simp del]

text \<open>
  The loop \<^verbatim>\<open>for (int i = 7; i >= 0; i--) buffer.push_back((bitlen >> (i * 8)) & 0xff)\<close>.
\<close>

definition push_bitlen :: "u8 list \<Rightarrow> u64 \<Rightarrow> u8 list" where
  "push_bitlen buf n =
     foldl (\<lambda>b i. b @ [ucast (drop_bit (i * 8) n AND 0xff)]) buf (rev [0..<8])"

text \<open>
  The stream insertion \<^verbatim>\<open>out << std::hex << std::setw(8) << std::setfill('0') << x\<close>:
  the digits of \<open>x\<close> in base 16, lowercase, shortest form, then filled on the left with
  \<^verbatim>\<open>'0'\<close> up to width 8.
\<close>

definition hex_digit :: "nat \<Rightarrow> char" where
  "hex_digit d = ''0123456789abcdef'' ! d"

fun hex_digits :: "nat \<Rightarrow> string" where
  "hex_digits n =
     (if n < 16 then [hex_digit n] else hex_digits (n div 16) @ [hex_digit (n mod 16)])"

declare hex_digits.simps [simp del]

definition setw_fill :: "nat \<Rightarrow> char \<Rightarrow> string \<Rightarrow> string" where
  "setw_fill w c s = replicate (w - length s) c @ s"

definition put_hex8 :: "u32 \<Rightarrow> string" where
  "put_hex8 x = setw_fill 8 (CHR ''0'') (hex_digits (unat x))"

text \<open>
  \<^verbatim>\<open>final()\<close>: push \<^verbatim>\<open>0x80\<close>, run the zero loop, push the eight length bytes, call
  \<^verbatim>\<open>transform(buffer.data())\<close> once, print the eight words.
\<close>

definition final :: "SHA256 \<Rightarrow> string" where
  "final c =
     (let buf = push_bitlen (pad_zeros (buffer c @ [0x80])) (bitlen c);
          hs = transform (h c) buf
      in concat (map put_hex8 hs))"

subsection \<open>\<^verbatim>\<open>SHA256::hashFile\<close>\<close>

text \<open>
  The read loop \<^verbatim>\<open>while (file.read(buf, 8192) || file.gcount())\<close> hands the stream to
  \<^verbatim>\<open>update\<close> in pieces of 8192 bytes, the last one shorter; it ends when a read
  returns no byte.
\<close>

function read_loop :: "SHA256 \<Rightarrow> u8 list \<Rightarrow> SHA256" where
  "read_loop c rest =
     (if rest = [] then c else read_loop (update c (take 8192 rest)) (drop 8192 rest))"
  by pat_completeness auto
termination
  by (relation "measure (\<lambda>(c, rest). length rest)") auto

declare read_loop.simps [simp del]

text \<open>
  The argument is what opening the path gives: \<open>None\<close> when the stream cannot be opened
  (\<^verbatim>\<open>if (!file) return ""\<close>), otherwise the bytes the stream delivers (all of the
  file, or less when a read fails on the way: the loop then ends as at the end of the
  file, and nothing is thrown).
\<close>

definition hashFile :: "u8 list option \<Rightarrow> string" where
  "hashFile file =
     (case file of None \<Rightarrow> '''' | Some bytes \<Rightarrow> final (read_loop SHA256_init bytes))"

section \<open>Records and the job queue\<close>

subsection \<open>Structure \<^verbatim>\<open>Record\<close>\<close>

text \<open>The field \<^verbatim>\<open>size\<close> is named \<open>size_f\<close>: \<open>size\<close> is HOL's size function.\<close>

record Record =
  filename :: string
  path :: string
  size_f :: u64
  mtime :: u64
  hash :: string

subsection \<open>Class \<^verbatim>\<open>JobQueue\<close>\<close>

text \<open>
  The queue of paths \<^verbatim>\<open>q_\<close> (here \<open>q_items\<close>) and the flag \<^verbatim>\<open>done_\<close> (here
  \<open>done_flag\<close>; a name cannot end in an underscore). Every member function holds the mutex
  \<^verbatim>\<open>m_\<close> for its whole body, so each call is one atomic step on this state.
\<close>

record JobQueue =
  q_items :: "string list"
  done_flag :: bool

definition JobQueue_init :: JobQueue where
  "JobQueue_init = \<lparr>q_items = [], done_flag = False\<rparr>"

definition push :: "JobQueue \<Rightarrow> string \<Rightarrow> JobQueue" where
  "push jq p = jq\<lparr>q_items := q_items jq @ [p]\<rparr>"

text \<open>
  \<^verbatim>\<open>pop\<close> has three outcomes: it returns \<^verbatim>\<open>true\<close> with the front path, it returns
  \<^verbatim>\<open>false\<close>, or the caller stays in \<^verbatim>\<open>cv_.wait\<close> because the wait predicate
  \<^verbatim>\<open>done_ || !q_.empty()\<close> is false. With a non-empty queue the predicate holds and the
  front is taken; with an empty queue the predicate is \<^verbatim>\<open>done_\<close>, and then
  \<^verbatim>\<open>if (q_.empty()) return false\<close> applies.
\<close>

datatype pop_result = Popped string | Closed | Waiting

definition pop :: "JobQueue \<Rightarrow> pop_result \<times> JobQueue" where
  "pop jq =
     (case q_items jq of
        [] \<Rightarrow> (if done_flag jq then (Closed, jq) else (Waiting, jq))
      | p # rest \<Rightarrow> (Popped p, jq\<lparr>q_items := rest\<rparr>))"

text \<open>\<^verbatim>\<open>done()\<close> of the source; \<open>done\<close> is a reserved word.\<close>

definition done_q :: "JobQueue \<Rightarrow> JobQueue" where
  "done_q jq = jq\<lparr>done_flag := True\<rparr>"

section \<open>The worker\<close>

text \<open>
  What the worker asks of the file system and what \<^verbatim>\<open>main\<close> asks of the standard
  library are parameters of the model: \<open>None\<close> stands for the call throwing (for
  \<open>open_stream\<close>: for the stream failing to open, which does not throw).
  \<open>lookup\<close> gives the directory tree a root path names.
\<close>

datatype node =
    File
  | Dir bool "(string \<times> node) list"
  | Symlink "node option"
  | BadLink
  | Special

record env =
  file_size :: "string \<Rightarrow> u64 option"
  last_write_time :: "string \<Rightarrow> u64 option"
  open_stream :: "string \<Rightarrow> u8 list option"
  lookup :: "string \<Rightarrow> node option"
  stoi :: "string \<Rightarrow> int option"
  stoull :: "string \<Rightarrow> u64 option"

text \<open>\<^verbatim>\<open>p.filename()\<close>: the characters after the last separator.\<close>

definition filename_of :: "string \<Rightarrow> string" where
  "filename_of p = rev (takeWhile (\<lambda>ch. ch \<noteq> CHR ''/'') (rev p))"

text \<open>
  The body of the \<^verbatim>\<open>try\<close> block for one path: \<open>None\<close> when an exception reaches
  \<^verbatim>\<open>catch (...)\<close>, otherwise the record that is pushed.
\<close>

definition index_file :: "env \<Rightarrow> string \<Rightarrow> Record option" where
  "index_file env p =
     (case file_size env p of
        None \<Rightarrow> None
      | Some sz \<Rightarrow>
         (case last_write_time env p of
            None \<Rightarrow> None
          | Some t \<Rightarrow>
              Some \<lparr>filename = filename_of p, path = p, size_f = sz, mtime = t,
                    hash = hashFile (open_stream env p)\<rparr>))"

text \<open>
  \<^verbatim>\<open>worker\<close>: the loop \<^verbatim>\<open>while (jobs.pop(p))\<close>, run from the state given with no
  other thread taking a step meanwhile. The result is \<open>None\<close> when the worker is left
  waiting in \<^verbatim>\<open>pop\<close>, otherwise the queue and the record vector at the moment
  \<^verbatim>\<open>pop\<close> returns \<^verbatim>\<open>false\<close>.
\<close>

function worker :: "env \<Rightarrow> JobQueue \<Rightarrow> Record list \<Rightarrow> (JobQueue \<times> Record list) option" where
  "worker env jobs records =
     (case pop jobs of
        (Popped p, jobs') \<Rightarrow>
          worker env jobs'
            (case index_file env p of None \<Rightarrow> records | Some r \<Rightarrow> records @ [r])
      | (Closed, jobs') \<Rightarrow> Some (jobs', records)
      | (Waiting, jobs') \<Rightarrow> None)"
  by pat_completeness auto
termination
  by (relation "measure (\<lambda>(env, jobs, records). length (q_items jobs))")
     (auto simp: pop_def split: list.splits if_splits)

declare worker.simps [simp del]

section \<open>\<^verbatim>\<open>indexDirectory\<close>\<close>

text \<open>
  A directory tree: a regular file, a directory (can it be opened for listing, and its
  entries in listing order), a symbolic link with what it resolves to (\<open>None\<close> when
  dangling), a symbolic link whose status cannot be read (\<open>BadLink\<close>: a link loop, a
  link into a directory that cannot be searched), or a special file.

  \<^verbatim>\<open>entry.is_regular_file()\<close> tests the status of the entry, which follows symbolic
  links. A dangling link has the status "not found" and is not a regular file. When
  the status cannot be read the call throws \<^verbatim>\<open>filesystem_error\<close>: the result is
  \<open>None\<close>.
\<close>

fun is_regular_file :: "node \<Rightarrow> bool option" where
  "is_regular_file File = Some True"
| "is_regular_file (Dir readable ents) = Some False"
| "is_regular_file (Symlink None) = Some False"
| "is_regular_file (Symlink (Some n)) = is_regular_file n"
| "is_regular_file BadLink = None"
| "is_regular_file Special = Some False"

text \<open>\<^verbatim>\<open>operator/\<close> on paths, for a relative name.\<close>

definition path_join :: "string \<Rightarrow> string \<Rightarrow> string" where
  "path_join dir name =
     (if dir = [] then name
      else if last dir = CHR ''/'' then dir @ name
      else dir @ ''/'' @ name)"

text \<open>
  \<^verbatim>\<open>fs::recursive_directory_iterator(root)\<close> is constructed with no options and used
  without an \<^verbatim>\<open>error_code\<close>: it yields the entries in depth-first order, does not
  descend into symbolic links, and throws when a directory it is about to descend into
  cannot be opened. \<open>iter_dir\<close> gives the entries yielded and whether the iteration
  ended by throwing; the entry of the directory that cannot be opened is yielded before
  the increment throws.
\<close>

type_synonym entry = "string \<times> node"

function iter_dir :: "string \<Rightarrow> (string \<times> node) list \<Rightarrow> entry list \<times> bool"
  and iter_into :: "string \<Rightarrow> node \<Rightarrow> entry list \<times> bool" where
  "iter_dir dir [] = ([], False)"
| "iter_dir dir ((name, n) # rest) =
     (case iter_into (path_join dir name) n of
        (es, True) \<Rightarrow> ((path_join dir name, n) # es, True)
      | (es, False) \<Rightarrow>
          (case iter_dir dir rest of
             (es', thrown) \<Rightarrow> ((path_join dir name, n) # es @ es', thrown)))"
| "iter_into p (Dir readable ents) = (if readable then iter_dir p ents else ([], True))"
| "iter_into p File = ([], False)"
| "iter_into p (Symlink target) = ([], False)"
| "iter_into p BadLink = ([], False)"
| "iter_into p Special = ([], False)"
  by pat_completeness auto
termination
  by (relation "measure (\<lambda>x. case x of
         Inl (dir, ents) \<Rightarrow> size_list (size_prod (\<lambda>x. 0) size) ents
       | Inr (p, n) \<Rightarrow> size n)")
     auto

text \<open>
  Constructing the iterator opens the root, following a symbolic link; \<open>None\<close> when
  the constructor throws.
\<close>

fun open_root :: "node option \<Rightarrow> (string \<times> node) list option" where
  "open_root None = None"
| "open_root (Some File) = None"
| "open_root (Some (Dir readable ents)) = (if readable then Some ents else None)"
| "open_root (Some (Symlink target)) = open_root target"
| "open_root (Some BadLink) = None"
| "open_root (Some Special) = None"

text \<open>
  The body of the \<^verbatim>\<open>for\<close> loop over the entries yielded; \<open>None\<close> when
  \<^verbatim>\<open>is_regular_file\<close> throws on one of them, which leaves the loop and the function.
\<close>

fun enqueue :: "entry list \<Rightarrow> JobQueue \<Rightarrow> JobQueue option" where
  "enqueue [] jobs = Some jobs"
| "enqueue ((p, n) # es) jobs =
     (case is_regular_file n of
        None \<Rightarrow> None
      | Some regular \<Rightarrow> enqueue es (if regular then push jobs p else jobs))"

text \<open>
  The threads. A worker alternates two atomic steps: a \<^verbatim>\<open>pop\<close> under the queue's
  mutex and, after the work of the \<^verbatim>\<open>try\<close> block on its own variables, the
  \<^verbatim>\<open>push_back\<close> under \<^verbatim>\<open>recMutex\<close> (or nothing, when the block threw). Between
  the two it holds the path it popped. \<open>worker_step\<close> is one such step of worker \<open>i\<close>
  on the queue, the states of the workers and the record vector.
\<close>

datatype wstate = Ready | Holding string | Returned

fun worker_step ::
  "env \<Rightarrow> JobQueue \<times> wstate list \<times> Record list \<Rightarrow> nat \<Rightarrow> JobQueue \<times> wstate list \<times> Record list"
where
  "worker_step env (jobs, ws, records) i =
     (if i < length ws then
        (case ws ! i of
           Ready \<Rightarrow>
             (case pop jobs of
                (Popped p, jobs') \<Rightarrow> (jobs', ws[i := Holding p], records)
              | (Closed, jobs') \<Rightarrow> (jobs', ws[i := Returned], records)
              | (Waiting, jobs') \<Rightarrow> (jobs', ws, records))
         | Holding p \<Rightarrow>
             (jobs, ws[i := Ready],
              (case index_file env p of None \<Rightarrow> records | Some r \<Rightarrow> records @ [r]))
         | Returned \<Rightarrow> (jobs, ws, records))
      else (jobs, ws, records))"

text \<open>
  \<^verbatim>\<open>for (auto& t : threads) t.join()\<close>: every worker that has not returned runs on to
  its end, here one after the other; \<open>None\<close> when one of them is left waiting.
\<close>

fun join_all ::
  "env \<Rightarrow> wstate list \<Rightarrow> JobQueue \<Rightarrow> Record list \<Rightarrow> (JobQueue \<times> Record list) option"
where
  "join_all env [] jobs records = Some (jobs, records)"
| "join_all env (Returned # ws) jobs records = join_all env ws jobs records"
| "join_all env (Ready # ws) jobs records =
     (case worker env jobs records of
        None \<Rightarrow> None
      | Some (jobs', records') \<Rightarrow> join_all env ws jobs' records')"
| "join_all env (Holding p # ws) jobs records =
     (case worker env jobs
             (case index_file env p of None \<Rightarrow> records | Some r \<Rightarrow> records @ [r]) of
        None \<Rightarrow> None
      | Some (jobs', records') \<Rightarrow> join_all env ws jobs' records')"

text \<open>
  Which worker takes the next step is the scheduler's choice: \<open>sched\<close> lists the
  workers in the order in which they take steps, and when the list is used up
  \<open>join_all\<close> completes the run, so every list stands for a complete run and every run
  is the run of some list. The order of the records in the vector depends on it.

  The scan and \<^verbatim>\<open>jobs.done()\<close> are placed before the first worker step. The queue is
  first-in first-out and has no bound, so the paths are popped in scan order however
  the scan interleaves with the workers, and a worker that finds the queue empty
  before \<^verbatim>\<open>done()\<close> only waits.
\<close>

definition run_workers ::
  "env \<Rightarrow> nat list \<Rightarrow> nat \<Rightarrow> JobQueue \<Rightarrow> (JobQueue \<times> Record list) option"
where
  "run_workers env sched n jobs =
     (case foldl (worker_step env) (jobs, replicate n Ready, []) sched of
        (jobs', ws, records) \<Rightarrow> join_all env ws jobs' records)"

text \<open>
  How a run of \<^verbatim>\<open>indexDirectory\<close> can fail: a \<^verbatim>\<open>filesystem_error\<close> is thrown during
  the scan, by the iterator or by \<^verbatim>\<open>is_regular_file\<close>, and nothing catches it
  (\<open>TraversalError\<close>), or a worker never returns and \<^verbatim>\<open>join\<close> waits for ever
  (\<open>WorkerBlocked\<close>). The loop body runs on an entry before the iterator moves on, so
  a throw of \<^verbatim>\<open>is_regular_file\<close> on an entry yielded comes before a throw of the
  iterator after the last entry yielded.
\<close>

datatype error = TraversalError | WorkerBlocked

definition indexDirectory :: "env \<Rightarrow> nat list \<Rightarrow> string \<Rightarrow> int \<Rightarrow> error + Record list" where
  "indexDirectory env sched root workers =
     (case open_root (lookup env root) of
        None \<Rightarrow> Inl TraversalError
      | Some ents \<Rightarrow>
         (case iter_dir root ents of
            (entries, thrown) \<Rightarrow>
              (case enqueue entries JobQueue_init of
                 None \<Rightarrow> Inl TraversalError
               | Some jobs \<Rightarrow>
                   if thrown then Inl TraversalError
                   else
                     (case run_workers env sched (nat workers) (done_q jobs) of
                        None \<Rightarrow> Inl WorkerBlocked
                      | Some (jobs', records) \<Rightarrow> Inr records))))"

section \<open>Queries and \<^verbatim>\<open>main\<close>\<close>

text \<open>
  \<^verbatim>\<open>std::cout << r.size\<close> prints the number in decimal. Standard output is modelled
  as the string written; \<open>CHR 0x0A\<close> is the newline.
\<close>

definition dec_digit :: "nat \<Rightarrow> char" where
  "dec_digit d = ''0123456789'' ! d"

fun dec_digits :: "nat \<Rightarrow> string" where
  "dec_digits n =
     (if n < 10 then [dec_digit n] else dec_digits (n div 10) @ [dec_digit (n mod 10)])"

declare dec_digits.simps [simp del]

fun queryFind :: "Record list \<Rightarrow> u64 \<Rightarrow> string" where
  "queryFind [] minMB = []"
| "queryFind (r # rs) minMB =
     (if minMB * 1024 * 1024 < size_f r
      then path r @ '' '' @ dec_digits (unat (size_f r)) @ [CHR 0x0A] @ queryFind rs minMB
      else queryFind rs minMB)"

fun queryChecksum :: "Record list \<Rightarrow> string \<Rightarrow> string" where
  "queryChecksum [] name = ''File not found'' @ [CHR 0x0A]"
| "queryChecksum (r # rs) name =
     (if filename r = name then hash r @ [CHR 0x0A] else queryChecksum rs name)"

text \<open>
  The process ends by returning from \<^verbatim>\<open>main\<close> (\<open>Exit\<close> with the code) or abnormally
  (\<open>Abort\<close>): an exception nothing catches, or the construction of a \<^verbatim>\<open>std::string\<close>
  from the null pointer \<^verbatim>\<open>argv[argc]\<close>; or it does not end (\<open>NoExit\<close>). An outcome also
  records the standard output and what \<^verbatim>\<open>indexDirectory\<close> returned, \<open>None\<close> when it
  was not called or did not return. The usage text goes to the error stream, which the
  outcome does not record.
\<close>

datatype exit_status = Exit nat | Abort | NoExit

record outcome =
  status :: exit_status
  indexed :: "Record list option"
  stdout :: string

text \<open>
  \<^verbatim>\<open>main\<close>; the list is \<^verbatim>\<open>argv[0 .. argc-1]\<close>, and \<open>sched\<close> is the schedule of the
  worker threads.
\<close>

definition main :: "env \<Rightarrow> nat list \<Rightarrow> string list \<Rightarrow> outcome" where
  "main env sched argv =
     (if length argv < 3 then \<lparr>status = Exit 1, indexed = None, stdout = []\<rparr>
      else
        let mode = argv ! 1; root = argv ! 2 in
        case (if 4 \<le> length argv \<and> mode = ''index'' then stoi env (argv ! 3) else Some 4) of
          None \<Rightarrow> \<lparr>status = Abort, indexed = None, stdout = []\<rparr>
        | Some workers \<Rightarrow>
           (case indexDirectory env sched root workers of
              Inl TraversalError \<Rightarrow> \<lparr>status = Abort, indexed = None, stdout = []\<rparr>
            | Inl WorkerBlocked \<Rightarrow> \<lparr>status = NoExit, indexed = None, stdout = []\<rparr>
            | Inr records \<Rightarrow>
               if mode = ''find'' then
                 (if length argv < 4
                  then \<lparr>status = Abort, indexed = Some records, stdout = []\<rparr>
                  else case stoull env (argv ! 3) of
                    None \<Rightarrow> \<lparr>status = Abort, indexed = Some records, stdout = []\<rparr>
                  | Some minMB \<Rightarrow>
                      \<lparr>status = Exit 0, indexed = Some records,
                       stdout = queryFind records minMB\<rparr>)
               else if mode = ''checksum'' then
                 (if length argv < 4
                  then \<lparr>status = Abort, indexed = Some records, stdout = []\<rparr>
                  else \<lparr>status = Exit 0, indexed = Some records,
                        stdout = queryChecksum records (argv ! 3)\<rparr>)
               else \<lparr>status = Exit 0, indexed = Some records, stdout = []\<rparr>))"

section \<open>Reference definitions\<close>

text \<open>
  The definitions of this section do not come from the source. They say in closed form
  what the properties below compare the code with.
\<close>

subsection \<open>The engine on a chunked stream\<close>

text \<open>\<^verbatim>\<open>update\<close> over a list of chunks, then \<^verbatim>\<open>final\<close>, as a caller of the class would.\<close>

definition hash_chunks :: "u8 list list \<Rightarrow> string" where
  "hash_chunks chunks = final (foldl update SHA256_init chunks)"

subsection \<open>Padding, length field and hexadecimal rendering\<close>

text \<open>The eight bytes of a 64-bit number, most significant first.\<close>

definition be64 :: "u64 \<Rightarrow> u8 list" where
  "be64 n = map (\<lambda>j. of_nat (unat n div 256 ^ (7 - j) mod 256)) [0..<8]"

text \<open>
  The number of zero bytes that bring \<open>n\<close> bytes followed by one \<^verbatim>\<open>0x80\<close> byte to a
  length congruent to 56 modulo 64: \<open>(55 - n) mod 64\<close>, written without negative
  numbers.
\<close>

definition pad_count :: "nat \<Rightarrow> nat" where
  "pad_count n = (119 - n mod 64) mod 64"

definition hex_alphabet :: "char set" where
  "hex_alphabet = set ''0123456789abcdef''"

text \<open>The \<open>k\<close> lowest hexadecimal digits of \<open>n\<close>, most significant first.\<close>

fun hex_fixed :: "nat \<Rightarrow> nat \<Rightarrow> string" where
  "hex_fixed 0 n = []"
| "hex_fixed (Suc k) n = hex_fixed k (n div 16) @ [hex_digit (n mod 16)]"

subsection \<open>The digest of the standard\<close>

text \<open>
  FIPS 180-4 pads the message with \<^verbatim>\<open>0x80\<close>, zero bytes and the 64-bit length to a
  multiple of 64 bytes, and applies the compression function to every 64-byte block of
  the padded message in turn. The compression function is the one \<open>transform\<close>
  implements; the reference vectors of C4 exercise it.
\<close>

function compress_blocks :: "u32 list \<Rightarrow> u8 list \<Rightarrow> u32 list" where
  "compress_blocks hs bytes =
     (if 64 \<le> length bytes
      then compress_blocks (transform hs (take 64 bytes)) (drop 64 bytes)
      else hs)"
  by pat_completeness auto
termination
  by (relation "measure (\<lambda>(hs, bytes). length bytes)") auto

declare compress_blocks.simps [simp del]

definition sha256_standard :: "u8 list \<Rightarrow> string" where
  "sha256_standard msg =
     concat (map (\<lambda>w. hex_fixed 8 (unat w))
       (compress_blocks (h SHA256_init)
          (msg @ [0x80] @ replicate (pad_count (length msg)) 0 @
           be64 (of_nat (8 * length msg)))))"

text \<open>
  The state of the engine once it has absorbed the bytes \<open>msg\<close>: every complete
  block compressed, the rest buffered, the counter at eight times the length.
\<close>

definition absorbed :: "u8 list \<Rightarrow> SHA256" where
  "absorbed msg =
     \<lparr>h = compress_blocks (h SHA256_init) msg,
      buffer = drop (64 * (length msg div 64)) msg,
      bitlen = of_nat (8 * length msg)\<rparr>"

text \<open>
  The 56 bytes of the two-block sample message of the standard,
  \<^verbatim>\<open>abcdbcdecdefdefgefghfghighijhijkijkljklmklmnlmnomnopnopq\<close>.
\<close>

definition nist56 :: "u8 list" where
  "nist56 =
     [0x61, 0x62, 0x63, 0x64, 0x62, 0x63, 0x64, 0x65, 0x63, 0x64, 0x65, 0x66, 0x64, 0x65,
      0x66, 0x67, 0x65, 0x66, 0x67, 0x68, 0x66, 0x67, 0x68, 0x69, 0x67, 0x68, 0x69, 0x6a,
      0x68, 0x69, 0x6a, 0x6b, 0x69, 0x6a, 0x6b, 0x6c, 0x6a, 0x6b, 0x6c, 0x6d, 0x6b, 0x6c,
      0x6d, 0x6e, 0x6c, 0x6d, 0x6e, 0x6f, 0x6d, 0x6e, 0x6f, 0x70, 0x6e, 0x6f, 0x70, 0x71]"

subsection \<open>Histories of queue operations\<close>

text \<open>
  A history is a sequence of calls on one queue. \<open>apply_op\<close> runs a call and logs
  what a successful \<^verbatim>\<open>pop\<close> delivers; a \<^verbatim>\<open>pop\<close> that waits or returns \<^verbatim>\<open>false\<close>
  delivers nothing.
\<close>

datatype queue_op = Push string | Pop | Done

fun apply_op :: "JobQueue \<times> string list \<Rightarrow> queue_op \<Rightarrow> JobQueue \<times> string list" where
  "apply_op (jq, delivered) (Push p) = (push jq p, delivered)"
| "apply_op (jq, delivered) Pop =
     (case pop jq of
        (Popped p, jq') \<Rightarrow> (jq', delivered @ [p])
      | (Closed, jq') \<Rightarrow> (jq', delivered)
      | (Waiting, jq') \<Rightarrow> (jq', delivered))"
| "apply_op (jq, delivered) Done = (done_q jq, delivered)"

fun pushed :: "queue_op list \<Rightarrow> string list" where
  "pushed [] = []"
| "pushed (Push p # ops) = p # pushed ops"
| "pushed (Pop # ops) = pushed ops"
| "pushed (Done # ops) = pushed ops"

subsection \<open>Query output\<close>

text \<open>The line \<^verbatim>\<open>find\<close> prints for a record.\<close>

definition find_line :: "Record \<Rightarrow> string" where
  "find_line r = path r @ '' '' @ dec_digits (unat (size_f r)) @ [CHR 0x0A]"

subsection \<open>The worker pool\<close>

text \<open>
  The paths the workers hold between their \<^verbatim>\<open>pop\<close> and their \<^verbatim>\<open>push_back\<close>; the
  records a list of paths gives, as a multiset; the records a state of the pool has and
  will have (\<open>outstanding\<close>); and the invariant of a pool whose queue has been closed
  (\<open>settled\<close>): a worker has returned only if the queue is empty.
\<close>

fun held :: "wstate list \<Rightarrow> string list" where
  "held [] = []"
| "held (Holding p # ws) = p # held ws"
| "held (Ready # ws) = held ws"
| "held (Returned # ws) = held ws"

definition records_of :: "env \<Rightarrow> string list \<Rightarrow> Record multiset" where
  "records_of env ps = mset (List.map_filter (index_file env) ps)"

definition outstanding :: "env \<Rightarrow> JobQueue \<times> wstate list \<times> Record list \<Rightarrow> Record multiset" where
  "outstanding env s =
     (case s of (jobs, ws, records) \<Rightarrow>
        mset records + records_of env (held ws) + records_of env (q_items jobs))"

definition settled :: "JobQueue \<times> wstate list \<times> Record list \<Rightarrow> bool" where
  "settled s =
     (case s of (jobs, ws, records) \<Rightarrow>
        done_flag jobs \<and> (if Returned \<in> set ws then q_items jobs = [] else True))"

subsection \<open>Directory trees\<close>

text \<open>
  Whether a listing holds a directory that the traversal descends into and cannot
  open. Directories behind a symbolic link do not count: the traversal does not enter
  them.
\<close>

function unopenable_in :: "(string \<times> node) list \<Rightarrow> bool"
  and unopenable :: "node \<Rightarrow> bool" where
  "unopenable_in [] = False"
| "unopenable_in ((name, n) # rest) = (if unopenable n then True else unopenable_in rest)"
| "unopenable (Dir readable ents) = (if readable then unopenable_in ents else True)"
| "unopenable File = False"
| "unopenable (Symlink target) = False"
| "unopenable BadLink = False"
| "unopenable Special = False"
  by pat_completeness auto
termination
  by (relation "measure (\<lambda>x. case x of
         Inl ents \<Rightarrow> size_list (size_prod (\<lambda>x. 0) size) ents
       | Inr n \<Rightarrow> size n)")
     auto

subsection \<open>Sample environments\<close>

text \<open>
  A directory \<^verbatim>\<open>data\<close> holding one file whose metadata can be read and whose content
  cannot be opened (a file without read permission).
\<close>

definition env_restricted :: env where
  "env_restricted =
     \<lparr>file_size = (\<lambda>p. if p = ''data/secret.txt'' then Some 12 else None),
      last_write_time = (\<lambda>p. if p = ''data/secret.txt'' then Some 1700000000 else None),
      open_stream = (\<lambda>p. None),
      lookup = (\<lambda>p. if p = ''data'' then Some (Dir True [(''secret.txt'', File)]) else None),
      stoi = (\<lambda>s. None),
      stoull = (\<lambda>s. None)\<rparr>"

text \<open>
  A directory \<^verbatim>\<open>data\<close> with two empty files and, between them, a subdirectory that
  cannot be opened.
\<close>

definition env_locked :: env where
  "env_locked =
     \<lparr>file_size = (\<lambda>p. Some 0),
      last_write_time = (\<lambda>p. Some 1700000000),
      open_stream = (\<lambda>p. Some []),
      lookup = (\<lambda>p. if p = ''data''
                 then Some (Dir True [(''a.txt'', File),
                                      (''locked'', Dir False [(''hidden.txt'', File)]),
                                      (''b.txt'', File)])
                 else None),
      stoi = (\<lambda>s. None),
      stoull = (\<lambda>s. None)\<rparr>"

text \<open>
  A directory \<^verbatim>\<open>data\<close> with an empty file, a link to an empty file and a link whose
  status cannot be read, and the entries its traversal yields.
\<close>

definition tree_loop :: "(string \<times> node) list" where
  "tree_loop =
     [(''a.txt'', File),
      (''link.txt'', Symlink (Some File)),
      (''loop'', BadLink)]"

definition entries_loop :: "entry list" where
  "entries_loop =
     [(''data/a.txt'', File),
      (''data/link.txt'', Symlink (Some File)),
      (''data/loop'', BadLink)]"

definition env_loop :: env where
  "env_loop =
     \<lparr>file_size = (\<lambda>p. Some 0),
      last_write_time = (\<lambda>p. Some 1700000000),
      open_stream = (\<lambda>p. Some []),
      lookup = (\<lambda>p. if p = ''data'' then Some (Dir True tree_loop) else None),
      stoi = (\<lambda>s. None),
      stoull = (\<lambda>s. None)\<rparr>"

text \<open>
  A directory \<^verbatim>\<open>data\<close> with an empty file, a link to a file, a link to a directory,
  a dangling link, a subdirectory and a named pipe.
\<close>

definition tree_links :: "(string \<times> node) list" where
  "tree_links =
     [(''real.txt'', File),
      (''link.txt'', Symlink (Some File)),
      (''dirlink'', Symlink (Some (Dir True [(''inner.txt'', File)]))),
      (''broken'', Symlink None),
      (''sub'', Dir True [(''x.bin'', File)]),
      (''pipe'', Special)]"

text \<open>The entries the traversal of that directory yields, in order.\<close>

definition entries_links :: "entry list" where
  "entries_links =
     [(''data/real.txt'', File),
      (''data/link.txt'', Symlink (Some File)),
      (''data/dirlink'', Symlink (Some (Dir True [(''inner.txt'', File)]))),
      (''data/broken'', Symlink None),
      (''data/sub'', Dir True [(''x.bin'', File)]),
      (''data/sub/x.bin'', File),
      (''data/pipe'', Special)]"

definition env_links :: env where
  "env_links =
     \<lparr>file_size = (\<lambda>p. Some 0),
      last_write_time = (\<lambda>p. Some 1700000000),
      open_stream = (\<lambda>p. Some []),
      lookup = (\<lambda>p. if p = ''data'' then Some (Dir True tree_links) else None),
      stoi = (\<lambda>s. None),
      stoull = (\<lambda>s. None)\<rparr>"

section \<open>Properties of the hash engine\<close>

lemma length_byte: "ucast (drop_bit (i * 8) (n :: u64) AND 0xff) = (of_nat (unat n div 256 ^ i mod 256) :: u8)"
proof -
  have "drop_bit (i * 8) n AND 0xff = take_bit 8 (drop_bit (i * 8) n)"
    by (simp add: take_bit_eq_mask mask_eq_exp_minus_1)
  then have "unat (drop_bit (i * 8) n AND 0xff) = take_bit 8 (drop_bit (i * 8) (unat n))"
    by (simp add: unsigned_take_bit_eq unat_drop_bit_eq)
  also have "\<dots> = unat n div 2 ^ (8 * i) mod 256"
    by (simp add: take_bit_eq_mod drop_bit_eq_div mult.commute)
  also have "(2 :: nat) ^ (8 * i) = 256 ^ i"
    by (simp add: power_mult)
  finally have "unat (drop_bit (i * 8) n AND 0xff) = unat n div 256 ^ i mod 256" .
  then show ?thesis
    by (metis of_nat_unat)
qed

lemma pad_zeros_replicate: "pad_zeros buf = buf @ replicate (pad_gap (length buf mod 64)) 0"
proof (induction buf rule: pad_zeros.induct)
  case (1 buf)
  show ?case
  proof (cases "length buf mod 64 = 56")
    case True
    then show ?thesis
      by (simp add: pad_zeros.simps [of buf] pad_gap_def)
  next
    case False
    define m where "m = length buf mod 64"
    have m: "m < 64" "m \<noteq> 56"
      using False by (simp_all add: m_def)
    have "Suc (length buf) mod 64 = (if m = 63 then 0 else Suc m)"
      by (simp add: mod_Suc m_def)
    moreover have "pad_gap m = Suc (pad_gap (if m = 63 then 0 else Suc m))"
      using m by (auto simp: pad_gap_def)
    ultimately have "pad_gap (length buf mod 64) = Suc (pad_gap (length (buf @ [0]) mod 64))"
      by (simp add: m_def)
    with False "1.IH" show ?thesis
      by (simp add: pad_zeros.simps [of buf] replicate_app_Cons_same)
  qed
qed

lemma pad_gap_count: "pad_gap (Suc n mod 64) = pad_count n"
proof -
  define m where "m = n mod 64"
  have m: "m < 64"
    by (simp add: m_def)
  have "Suc n mod 64 = (if m = 63 then 0 else Suc m)"
    by (simp add: mod_Suc m_def)
  moreover have "pad_gap (if m = 63 then 0 else Suc m) = (119 - m) mod 64"
    using m by (auto simp: pad_gap_def mod_if)
  ultimately show ?thesis
    by (simp add: pad_count_def m_def)
qed


lemma push_bitlen_be64: "push_bitlen buf n = buf @ be64 n"
proof -
  have "rev [0..<8] = [7, 6, 5, 4, 3, 2, 1, 0 :: nat]"
    by code_simp
  moreover have "[0..<8] = [0, 1, 2, 3, 4, 5, 6, 7 :: nat]"
    by code_simp
  ultimately show ?thesis
    using length_byte [of 7 n] length_byte [of 6 n] length_byte [of 5 n] length_byte [of 4 n]
      length_byte [of 3 n] length_byte [of 2 n] length_byte [of 1 n] length_byte [of 0 n]
    by (simp add: push_bitlen_def be64_def)
qed

lemma hex_fixed_zero: "hex_fixed k 0 = replicate k (CHR ''0'')"
  by (induction k) (simp_all add: hex_digit_def replicate_append_same)

lemma length_hex_fixed: "length (hex_fixed k n) = k"
  by (induction k arbitrary: n) simp_all

lemma hex_digit_lower: "d < 16 \<Longrightarrow> hex_digit d \<in> hex_alphabet"
proof -
  assume "d < 16"
  then have "d < length ''0123456789abcdef''"
    by simp
  then show ?thesis
    unfolding hex_digit_def hex_alphabet_def by (rule nth_mem)
qed

lemma set_hex_fixed: "set (hex_fixed k n) \<subseteq> hex_alphabet"
proof (induction k arbitrary: n)
  case 0
  show ?case by simp
next
  case (Suc k)
  have "hex_digit (n mod 16) \<in> hex_alphabet"
    by (rule hex_digit_lower) simp
  with Suc [of "n div 16"] show ?case
    by simp
qed

lemma hex_digits_fixed:
  "n < 16 ^ Suc k \<Longrightarrow>
   length (hex_digits n) \<le> Suc k \<and> setw_fill (Suc k) (CHR ''0'') (hex_digits n) = hex_fixed (Suc k) n"
proof (induction k arbitrary: n)
  case 0
  then show ?case
    by (simp add: hex_digits.simps [of n] setw_fill_def)
next
  case (Suc k)
  show ?case
  proof (cases "n < 16")
    case True
    then show ?thesis
      by (simp add: hex_digits.simps [of n] setw_fill_def hex_fixed_zero hex_digit_def
          replicate_append_same)
  next
    case False
    from Suc.prems have "n div 16 < 16 ^ Suc k"
      by (simp add: less_mult_imp_div_less mult.commute)
    from Suc.IH [OF this] False show ?thesis
      by (simp add: hex_digits.simps [of n] setw_fill_def)
  qed
qed

lemma put_hex8_fixed: "put_hex8 w = hex_fixed 8 (unat w)"
proof -
  have "unat w < 2 ^ 32"
    using unsigned_less [of w] by simp
  then have "unat w < 16 ^ Suc 7"
    by simp
  from hex_digits_fixed [OF this] show ?thesis
    by (simp add: put_hex8_def)
qed

lemma length_transform: "length (transform hs chunk) = 8"
  by (simp add: transform_def Let_def split: prod.splits)

lemma length_concat_hex:
  "length (concat (map (\<lambda>w. hex_fixed 8 (unat w)) ws)) = 8 * length ws"
  by (induction ws) (simp_all add: length_hex_fixed)

lemma set_concat_hex:
  "set (concat (map (\<lambda>w. hex_fixed 8 (unat w)) ws)) \<subseteq> hex_alphabet"
  using set_hex_fixed by (induction ws) auto

lemma put_hex8_fun: "put_hex8 = (\<lambda>w. hex_fixed 8 (unat w))"
  by (rule ext) (rule put_hex8_fixed)

lemma final_padded:
  "final c = concat (map (\<lambda>w. hex_fixed 8 (unat w))
               (transform (h c)
                  (buffer c @ [0x80] @ replicate (pad_count (length (buffer c))) 0 @ be64 (bitlen c))))"
  by (simp add: final_def Let_def pad_zeros_replicate push_bitlen_be64 pad_gap_count put_hex8_fun)

lemma load_word_take:
  assumes "i < 16" "64 \<le> length chunk"
  shows "load_word (take 64 chunk) i = load_word chunk i"
  using assms by (simp add: load_word_def)

lemma schedule_take:
  assumes "64 \<le> length chunk"
  shows "schedule (take 64 chunk) = schedule chunk"
proof -
  have "map (load_word (take 64 chunk)) [0..<16] = map (load_word chunk) [0..<16]"
    using assms by (intro map_cong) (simp_all add: load_word_take)
  then show ?thesis
    by (simp only: schedule_def)
qed

lemma transform_take:
  "64 \<le> length chunk \<Longrightarrow> transform hs (take 64 chunk) = transform hs chunk"
  by (simp only: transform_def schedule_take)

lemma compress_blocks_short: "length xs < 64 \<Longrightarrow> compress_blocks hs xs = hs"
  by (simp add: compress_blocks.simps [of hs xs])

lemma compress_blocks_step:
  "64 \<le> length xs \<Longrightarrow>
   compress_blocks hs xs = compress_blocks (transform hs xs) (drop 64 xs)"
  by (simp add: compress_blocks.simps [of hs xs] transform_take)

lemma compress_blocks_append:
  "length xs = 64 * k \<Longrightarrow>
   compress_blocks hs (xs @ ys) = compress_blocks (compress_blocks hs xs) ys"
proof (induction k arbitrary: xs hs)
  case 0
  then show ?case
    by (simp add: compress_blocks_short)
next
  case (Suc k)
  then have len: "64 \<le> length xs" "length (drop 64 xs) = 64 * k"
    by simp_all
  have "compress_blocks hs (xs @ ys) =
          compress_blocks (transform hs (take 64 xs)) (drop 64 xs @ ys)"
    using len(1) by (simp add: compress_blocks.simps [of hs "xs @ ys"])
  also have "\<dots> = compress_blocks (compress_blocks (transform hs (take 64 xs)) (drop 64 xs)) ys"
    by (rule Suc.IH [OF len(2)])
  also have "compress_blocks (transform hs (take 64 xs)) (drop 64 xs) = compress_blocks hs xs"
    using len(1) by (simp add: compress_blocks.simps [of hs xs])
  finally show ?case .
qed

lemma compress_blocks_whole:
  "compress_blocks hs xs = compress_blocks hs (take (64 * (length xs div 64)) xs)"
proof -
  let ?k = "length xs div 64"
  have l: "length (take (64 * ?k) xs) = 64 * ?k"
    by simp
  have "length (drop (64 * ?k) xs) < 64"
    by (simp add: minus_mult_div_eq_mod)
  then have "compress_blocks (compress_blocks hs (take (64 * ?k) xs)) (drop (64 * ?k) xs) =
      compress_blocks hs (take (64 * ?k) xs)"
    by (rule compress_blocks_short)
  with compress_blocks_append [OF l, of hs "drop (64 * ?k) xs"] show ?thesis
    by simp
qed

lemma consume_blocks:
  "consume c = c\<lparr>h := compress_blocks (h c) (buffer c),
                 buffer := drop (64 * (length (buffer c) div 64)) (buffer c)\<rparr>"
proof (induction c rule: consume.induct)
  case (1 c)
  show ?case
  proof (cases "64 \<le> length (buffer c)")
    case False
    then show ?thesis
      by (simp add: consume.simps [of c] compress_blocks_short)
  next
    case True
    let ?n = "length (buffer c)"
    have "64 * ((?n - 64) div 64) + 64 = 64 * (?n div 64)"
      using True by (simp add: le_div_geq)
    then have d: "drop (64 * ((?n - 64) div 64)) (drop 64 (buffer c)) = drop (64 * (?n div 64)) (buffer c)"
      by simp
    from True "1.IH" d show ?thesis
      by (simp add: consume.simps [of c] compress_blocks_step)
  qed
qed

lemma drop_blocks_append:
  fixes xs ys :: "'a list"
  defines "k \<equiv> length xs div 64"
  shows "drop (64 * (length (drop (64 * k) xs @ ys) div 64)) (drop (64 * k) xs @ ys) =
         drop (64 * (length (xs @ ys) div 64)) (xs @ ys)"
proof -
  let ?N = "length (xs @ ys)"
  have le: "64 * k \<le> length xs"
    by (simp add: k_def)
  then have e: "drop (64 * k) xs @ ys = drop (64 * k) (xs @ ys)"
    by simp
  have "?N = (?N - 64 * k) + k * 64"
    using le by simp
  then have "?N div 64 = ((?N - 64 * k) + k * 64) div 64"
    by (rule arg_cong)
  also have "\<dots> = k + (?N - 64 * k) div 64"
    by (simp only: div_mult_self3)
  finally have j: "64 * ((?N - 64 * k) div 64) + 64 * k = 64 * (?N div 64)"
    by simp
  have "drop (64 * (length (drop (64 * k) (xs @ ys)) div 64)) (drop (64 * k) (xs @ ys)) =
        drop (64 * ((?N - 64 * k) div 64) + 64 * k) (xs @ ys)"
    by (simp only: drop_drop length_drop)
  with e j show ?thesis
    by (simp only:)
qed

lemma absorbed_Nil: "absorbed [] = SHA256_init"
  by (simp add: absorbed_def SHA256_init_def compress_blocks_short)

lemma update_absorbed: "update (absorbed msg) data = absorbed (msg @ data)"
proof -
  let ?L = "length msg" and ?d = "length data"
  let ?k = "?L div 64"
  let ?tail = "drop (64 * ?k) msg"
  have split: "msg @ data = take (64 * ?k) msg @ (?tail @ data)"
    by simp
  have lt: "length (take (64 * ?k) msg) = 64 * ?k"
    by simp
  have ltail: "length ?tail = ?L mod 64"
    by (simp add: minus_mult_div_eq_mod)
  have a: "compress_blocks (compress_blocks (h SHA256_init) msg) (?tail @ data) =
           compress_blocks (h SHA256_init) (msg @ data)"
  proof -
    have "compress_blocks (h SHA256_init) (take (64 * ?k) msg @ (?tail @ data)) =
            compress_blocks (compress_blocks (h SHA256_init) (take (64 * ?k) msg)) (?tail @ data)"
      by (rule compress_blocks_append [OF lt])
    then have "compress_blocks (h SHA256_init) (msg @ data) =
            compress_blocks (compress_blocks (h SHA256_init) (take (64 * ?k) msg)) (?tail @ data)"
      by (simp only: split [symmetric])
    also have "compress_blocks (h SHA256_init) (take (64 * ?k) msg) =
            compress_blocks (h SHA256_init) msg"
      by (rule compress_blocks_whole [symmetric])
    finally show ?thesis
      by (rule sym)
  qed
  have b: "drop (64 * (length (?tail @ data) div 64)) (?tail @ data) =
      drop (64 * (length (msg @ data) div 64)) (msg @ data)"
    by (rule drop_blocks_append)
  have c: "(of_nat (8 * ?L) :: u64) + of_nat ?d * 8 = of_nat (8 * (?L + ?d))"
    by simp
  show ?thesis
    unfolding update_def consume_blocks
    apply (simp only: absorbed_def SHA256.simps)
    apply (simp only: a b)
    apply (simp only: length_append c)
    done
qed

lemma foldl_update_absorbed: "foldl update (absorbed msg) chunks = absorbed (msg @ concat chunks)"
  by (induction chunks arbitrary: msg) (simp_all add: update_absorbed)

lemma chunks_absorbed: "foldl update SHA256_init chunks = absorbed (concat chunks)"
  using foldl_update_absorbed [of "[]" chunks] by (simp add: absorbed_Nil)

lemma read_loop_absorbed: "read_loop (absorbed msg) rest = absorbed (msg @ rest)"
proof (induction rest arbitrary: msg rule: length_induct)
  case (1 rest)
  show ?case
  proof (cases "rest = []")
    case True
    then show ?thesis
      by (simp add: read_loop.simps [of "absorbed msg"])
  next
    case False
    then have "length (drop 8192 rest) < length rest"
      by simp
    with "1.IH" have "read_loop (absorbed (msg @ take 8192 rest)) (drop 8192 rest) =
        absorbed ((msg @ take 8192 rest) @ drop 8192 rest)"
      by blast
    with False show ?thesis
      by (simp add: read_loop.simps [of "absorbed msg"] update_absorbed)
  qed
qed

lemma length_be64: "length (be64 n) = 8"
  by (simp add: be64_def)

lemma hashFile_absorbed: "hashFile (Some bytes) = final (absorbed bytes)"
  using read_loop_absorbed [of "[]" bytes] by (simp add: hashFile_def absorbed_Nil)

lemma hash_chunks_absorbed: "hash_chunks chunks = final (absorbed (concat chunks))"
  by (simp add: hash_chunks_def chunks_absorbed)

lemma hash_any_chunking: "hash_chunks chunks = hashFile (Some (concat chunks))"
  by (simp only: hash_chunks_absorbed hashFile_absorbed)

lemma pad_count_mod: "pad_count (n mod 64) = pad_count n"
  by (simp add: pad_count_def)

lemma pad_count_short:
  assumes "n mod 64 < 56"
  shows "pad_count n = 55 - n mod 64"
proof -
  have "119 - n mod 64 = (55 - n mod 64) + 64"
    using assms by simp
  then have "(119 - n mod 64) mod 64 = (55 - n mod 64) mod 64"
    by (simp only: mod_add_self2)
  then show ?thesis
    by (simp add: pad_count_def)
qed

lemma final_absorbed_standard:
  assumes "length msg mod 64 < 56"
  shows "final (absorbed msg) = sha256_standard msg"
proof -
  let ?L = "length msg"
  let ?k = "?L div 64"
  let ?tail = "drop (64 * ?k) msg"
  let ?P = "[0x80] @ replicate (pad_count ?L) 0 @ be64 (of_nat (8 * ?L))"
  let ?hs = "compress_blocks (h SHA256_init) msg"
  have ltail: "length ?tail = ?L mod 64"
    by (simp add: minus_mult_div_eq_mod)
  have lX: "length (?tail @ ?P) = 64"
    using assms by (simp add: ltail length_be64 pad_count_short)
  have lt: "length (take (64 * ?k) msg) = 64 * ?k"
    by simp
  have "compress_blocks (h SHA256_init) (take (64 * ?k) msg @ (?tail @ ?P)) =
        compress_blocks (compress_blocks (h SHA256_init) (take (64 * ?k) msg)) (?tail @ ?P)"
    by (rule compress_blocks_append [OF lt])
  also have "take (64 * ?k) msg @ (?tail @ ?P) = msg @ ?P"
    by simp
  also have "compress_blocks (h SHA256_init) (take (64 * ?k) msg) = ?hs"
    by (rule compress_blocks_whole [symmetric])
  also have "compress_blocks ?hs (?tail @ ?P) = transform ?hs (?tail @ ?P)"
    using lX by (simp add: compress_blocks_step compress_blocks_short)
  finally have std: "compress_blocks (h SHA256_init) (msg @ ?P) = transform ?hs (?tail @ ?P)" .
  have "final (absorbed msg) =
          concat (map (\<lambda>w. hex_fixed 8 (unat w)) (transform ?hs (?tail @ ?P)))"
    by (simp add: final_padded absorbed_def minus_mult_div_eq_mod pad_count_mod)
  with std show ?thesis
    by (simp add: sha256_standard_def)
qed

lemma hash_chunks_standard:
  "length (concat chunks) mod 64 < 56 \<Longrightarrow> hash_chunks chunks = sha256_standard (concat chunks)"
  by (simp add: hash_chunks_absorbed final_absorbed_standard)

lemma hashFile_standard:
  "length bytes mod 64 < 56 \<Longrightarrow> hashFile (Some bytes) = sha256_standard bytes"
  by (simp add: hashFile_absorbed final_absorbed_standard)

subsection \<open>The steps of \<^verbatim>\<open>final\<close>\<close>

lemma bitlen_absorbed: "bitlen (absorbed msg) = of_nat (8 * length msg)"
  by (simp add: absorbed_def)

lemma pad_count_reaches: "(n + 1 + pad_count n) mod 64 = 56"
proof -
  define m where "m = n mod 64"
  have m: "m < 64"
    by (simp add: m_def)
  have "(m + 1 + (119 - m) mod 64) mod 64 = 56"
  proof (cases "m < 56")
    case True
    then have "119 - m = (55 - m) + 64"
      by simp
    then have "(119 - m) mod 64 = 55 - m"
      using True by (simp only: mod_add_self2) simp
    with True show ?thesis
      by simp
  next
    case False
    with m have "(119 - m) mod 64 = 119 - m"
      by simp
    with False m show ?thesis
      by simp
  qed
  then have "(n mod 64 + (1 + pad_count n)) mod 64 = 56"
    by (simp add: pad_count_def m_def add.assoc)
  then show ?thesis
    by (simp only: mod_add_left_eq add.assoc)
qed

lemma pad_count_least:
  assumes "j < pad_count n"
  shows "(n + 1 + j) mod 64 \<noteq> 56"
proof
  assume eq: "(n + 1 + j) mod 64 = 56"
  define m where "m = n mod 64"
  have m: "m < 64"
    by (simp add: m_def)
  have pc: "pad_count n = (119 - m) mod 64"
    by (simp add: pad_count_def m_def)
  have "(n + 1 + j) mod 64 = (m + (1 + j)) mod 64"
    by (simp only: m_def mod_add_left_eq add.assoc)
  with eq have e: "(m + 1 + j) mod 64 = 56"
    by (simp add: add.assoc)
  show False
  proof (cases "m < 56")
    case True
    then have "119 - m = (55 - m) + 64"
      by simp
    then have "(119 - m) mod 64 = 55 - m"
      using True by (simp only: mod_add_self2) simp
    with assms pc have "m + 1 + j < 56"
      by simp
    with e show False
      by simp
  next
    case False
    with m have "(119 - m) mod 64 = 119 - m"
      by simp
    with assms pc have j: "m + 1 + j < 120"
      by simp
    from False have lo: "64 \<le> m + 1 + j \<or> m + 1 + j < 64 \<and> 56 < m + 1 + j"
      by auto
    then show False
    proof
      assume ge: "64 \<le> m + 1 + j"
      then have "(m + 1 + j) mod 64 = m + 1 + j - 64"
        using j by (simp add: mod_if)
      with e j ge show False
        by simp
    next
      assume "m + 1 + j < 64 \<and> 56 < m + 1 + j"
      with e show False
        by simp
    qed
  qed
qed

text \<open>
  C9: for the state \<open>c\<close> reached on any stream, \<^verbatim>\<open>final\<close> appends one \<^verbatim>\<open>0x80\<close>
  byte, then zero bytes until the buffer length is congruent to 56 modulo 64 (that
  many and no fewer), then the counter \<^verbatim>\<open>bitlen\<close> as eight bytes, most significant
  first; it runs \<^verbatim>\<open>transform\<close> once on that buffer, which reads its first 64 bytes,
  and prints the eight words in order, each as eight lowercase hexadecimal digits, 64
  characters in all. After any
  sequence of \<^verbatim>\<open>update\<close> calls the counter holds eight times the number of bytes
  absorbed, in 64-bit arithmetic.
\<close>

theorem final_steps:
  "final c =
     concat (map (\<lambda>w. hex_fixed 8 (unat w))
       (transform (h c)
          (buffer c @ [0x80] @ replicate (pad_count (length (buffer c))) 0 @ be64 (bitlen c))))
   \<and> length (buffer c @ [0x80] @ replicate (pad_count (length (buffer c))) 0) mod 64 = 56
   \<and> (\<forall>j < pad_count (length (buffer c)).
         length (buffer c @ [0x80] @ replicate j 0) mod 64 \<noteq> 56)
   \<and> length (be64 (bitlen c)) = 8
   \<and> transform (h c)
         (buffer c @ [0x80] @ replicate (pad_count (length (buffer c))) 0 @ be64 (bitlen c)) =
       transform (h c)
         (take 64
            (buffer c @ [0x80] @ replicate (pad_count (length (buffer c))) 0 @ be64 (bitlen c)))
   \<and> length (final c) = 64
   \<and> set (final c) \<subseteq> hex_alphabet
   \<and> bitlen (foldl update SHA256_init chunks) = of_nat (8 * length (concat chunks))"
proof (intro conjI allI impI)
  show "final c =
     concat (map (\<lambda>w. hex_fixed 8 (unat w))
       (transform (h c)
          (buffer c @ [0x80] @ replicate (pad_count (length (buffer c))) 0 @ be64 (bitlen c))))"
    by (rule final_padded)
next
  show "length (buffer c @ [0x80] @ replicate (pad_count (length (buffer c))) 0) mod 64 = 56"
    using pad_count_reaches [of "length (buffer c)"] by simp
next
  fix j
  assume "j < pad_count (length (buffer c))"
  from pad_count_least [OF this] show "length (buffer c @ [0x80] @ replicate j 0) mod 64 \<noteq> 56"
    by simp
next
  show "length (be64 (bitlen c)) = 8"
    by (rule length_be64)
next
  let ?n = "length (buffer c)"
  have "(?n + 1 + pad_count ?n) mod 64 \<le> ?n + 1 + pad_count ?n"
    by (rule mod_less_eq_dividend)
  then have "56 \<le> ?n + 1 + pad_count ?n"
    by (simp only: pad_count_reaches)
  then have "64 \<le> length (buffer c @ [0x80] @ replicate (pad_count ?n) 0 @ be64 (bitlen c))"
    by (simp add: length_be64)
  then show "transform (h c)
         (buffer c @ [0x80] @ replicate (pad_count (length (buffer c))) 0 @ be64 (bitlen c)) =
       transform (h c)
         (take 64
            (buffer c @ [0x80] @ replicate (pad_count (length (buffer c))) 0 @ be64 (bitlen c)))"
    by (rule transform_take [symmetric])
next
  show "length (final c) = 64"
    by (simp only: final_padded length_concat_hex length_transform)
next
  show "set (final c) \<subseteq> hex_alphabet"
    by (simp only: final_padded set_concat_hex)
next
  show "bitlen (foldl update SHA256_init chunks) = of_nat (8 * length (concat chunks))"
    by (simp only: chunks_absorbed bitlen_absorbed)
qed

theorem final_steps_witness:
  "(3 :: nat) < pad_count (length (buffer SHA256_init))
   \<and> length (buffer SHA256_init @ [0x80] @ replicate 3 0) mod 64 \<noteq> 56
   \<and> length (final SHA256_init) = 64
   \<and> bitlen (foldl update SHA256_init [[0x61], [0x62, 0x63]]) = 24"
proof -
  have lt: "(3 :: nat) < pad_count (length (buffer SHA256_init))"
    by (simp add: pad_count_def SHA256_init_def)
  note steps = final_steps [of SHA256_init "[[0x61], [0x62, 0x63]]"]
  from steps have least: "\<forall>j < pad_count (length (buffer SHA256_init)).
      length (buffer SHA256_init @ [0x80] @ replicate j 0) mod 64 \<noteq> 56"
    by blast
  from steps have len: "length (final SHA256_init) = 64"
    by blast
  from steps have "bitlen (foldl update SHA256_init [[0x61], [0x62, 0x63]]) =
      of_nat (8 * length (concat [[0x61 :: u8], [0x62, 0x63]]))"
    by blast
  then have bits: "bitlen (foldl update SHA256_init [[0x61], [0x62, 0x63]]) = 24"
    by simp
  from least lt have "length (buffer SHA256_init @ [0x80] @ replicate 3 0) mod 64 \<noteq> 56"
    by blast
  with lt len bits show ?thesis
    by blast
qed


subsection \<open>Digests of sample streams\<close>

lemma render_empty:
  "concat (map put_hex8 [0xe3b0c442, 0x98fc1c14, 0x9afbf4c8, 0x996fb924,
                         0x27ae41e4, 0x649b934c, 0xa495991b, 0x7852b855]) =
   ''e3b0c44298fc1c149afbf4c8996fb92427ae41e4649b934ca495991b7852b855''"
  by (simp add: put_hex8_def setw_fill_def hex_digits.simps hex_digit_def)

lemma render_abc:
  "concat (map put_hex8 [0xba7816bf, 0x8f01cfea, 0x414140de, 0x5dae2223,
                         0xb00361a3, 0x96177a9c, 0xb410ff61, 0xf20015ad]) =
   ''ba7816bf8f01cfea414140de5dae2223b00361a396177a9cb410ff61f20015ad''"
  by (simp add: put_hex8_def setw_fill_def hex_digits.simps hex_digit_def)

lemma render_sample_code:
  "concat (map put_hex8 [0x85e655d6, 0x417a1795, 0x3363376a, 0x624cde5c,
                         0x76e09589, 0xcac5f811, 0xcc4b32c1, 0xf20e533a]) =
   ''85e655d6417a17953363376a624cde5c76e09589cac5f811cc4b32c1f20e533a''"
  by (simp add: put_hex8_def setw_fill_def hex_digits.simps hex_digit_def)

lemma render_sample_standard:
  "concat (map put_hex8 [0x248d6a61, 0xd20638b8, 0xe5c02693, 0x0c3e6039,
                         0xa33ce459, 0x64ff2167, 0xf6ecedd4, 0x19db06c1]) =
   ''248d6a61d20638b8e5c026930c3e6039a33ce45964ff2167f6ecedd419db06c1''"
  by (simp add: put_hex8_def setw_fill_def hex_digits.simps hex_digit_def)

lemma words_empty:
  "transform (h SHA256_init)
     (push_bitlen (pad_zeros (buffer SHA256_init @ [0x80])) (bitlen SHA256_init)) =
   [0xe3b0c442, 0x98fc1c14, 0x9afbf4c8, 0x996fb924,
    0x27ae41e4, 0x649b934c, 0xa495991b, 0x7852b855]"
  by code_simp

lemma words_abc:
  "transform (h (update SHA256_init [0x61, 0x62, 0x63]))
     (push_bitlen (pad_zeros (buffer (update SHA256_init [0x61, 0x62, 0x63]) @ [0x80]))
        (bitlen (update SHA256_init [0x61, 0x62, 0x63]))) =
   [0xba7816bf, 0x8f01cfea, 0x414140de, 0x5dae2223,
    0xb00361a3, 0x96177a9c, 0xb410ff61, 0xf20015ad]"
  by code_simp

lemma words_sample_code:
  "transform (h (update SHA256_init nist56))
     (push_bitlen (pad_zeros (buffer (update SHA256_init nist56) @ [0x80]))
        (bitlen (update SHA256_init nist56))) =
   [0x85e655d6, 0x417a1795, 0x3363376a, 0x624cde5c,
    0x76e09589, 0xcac5f811, 0xcc4b32c1, 0xf20e533a]"
  by code_simp

lemma words_sample_standard:
  "compress_blocks (h SHA256_init)
     (push_bitlen (nist56 @ [0x80] @ replicate (pad_count (length nist56)) 0)
        (of_nat (8 * length nist56))) =
   [0x248d6a61, 0xd20638b8, 0xe5c02693, 0x0c3e6039,
    0xa33ce459, 0x64ff2167, 0xf6ecedd4, 0x19db06c1]"
  by code_simp

lemma final_empty:
  "final SHA256_init = ''e3b0c44298fc1c149afbf4c8996fb92427ae41e4649b934ca495991b7852b855''"
  by (simp only: final_def Let_def words_empty render_empty)

lemma final_abc:
  "final (update SHA256_init [0x61, 0x62, 0x63]) =
   ''ba7816bf8f01cfea414140de5dae2223b00361a396177a9cb410ff61f20015ad''"
  by (simp only: final_def Let_def words_abc render_abc)

lemma final_sample:
  "final (update SHA256_init nist56) =
   ''85e655d6417a17953363376a624cde5c76e09589cac5f811cc4b32c1f20e533a''"
  by (simp only: final_def Let_def words_sample_code render_sample_code)

lemma read_loop_Nil: "read_loop SHA256_init [] = SHA256_init"
  by (simp add: read_loop.simps [of SHA256_init])

lemma read_loop_abc:
  "read_loop SHA256_init [0x61, 0x62, 0x63] = update SHA256_init [0x61, 0x62, 0x63]"
  by (simp add: read_loop.simps [of _ "[]"] read_loop.simps [of _ "[0x61, 0x62, 0x63]"])

lemma read_loop_sample: "read_loop SHA256_init nist56 = update SHA256_init nist56"
proof -
  have "length nist56 = 56"
    by (simp add: nist56_def)
  then have "take 8192 nist56 = nist56" "drop 8192 nist56 = []" "nist56 \<noteq> []"
    by auto
  then show ?thesis
    by (simp add: read_loop.simps [of _ "[]"] read_loop.simps [of _ nist56])
qed

text \<open>
  C4: the engine applied to the empty byte stream yields
  \<^verbatim>\<open>e3b0c44298fc1c149afbf4c8996fb92427ae41e4649b934ca495991b7852b855\<close>, and applied to
  the three bytes \<^verbatim>\<open>abc\<close> (0x61, 0x62, 0x63) it yields
  \<^verbatim>\<open>ba7816bf8f01cfea414140de5dae2223b00361a396177a9cb410ff61f20015ad\<close>. Both are
  stated for \<^verbatim>\<open>hashFile\<close> on a file with that content and for the engine fed directly.
\<close>

theorem hash_reference_vectors:
  "hashFile (Some []) = ''e3b0c44298fc1c149afbf4c8996fb92427ae41e4649b934ca495991b7852b855''
   \<and> hash_chunks [] = ''e3b0c44298fc1c149afbf4c8996fb92427ae41e4649b934ca495991b7852b855''
   \<and> hashFile (Some [0x61, 0x62, 0x63]) =
       ''ba7816bf8f01cfea414140de5dae2223b00361a396177a9cb410ff61f20015ad''
   \<and> hash_chunks [[0x61, 0x62, 0x63]] =
       ''ba7816bf8f01cfea414140de5dae2223b00361a396177a9cb410ff61f20015ad''"
  by (simp add: hashFile_def hash_chunks_def read_loop_Nil read_loop_abc final_empty final_abc)

text \<open>
  C1: the digest of every byte stream should be the one the SHA-256 standard
  prescribes, whatever the length. At the 56-byte sample message of the standard the
  code returns \<^verbatim>\<open>85e655d6...\<close>, while the standard prescribes \<^verbatim>\<open>248d6a61...\<close>: the
  padded buffer is 128 bytes long and \<^verbatim>\<open>final\<close> compresses its first 64 only.
  \<open>final_absorbed_standard\<close> above shows agreement whenever the length modulo 64 is
  below 56.
\<close>

theorem sample_digest_differs:
  "hashFile (Some nist56) = ''85e655d6417a17953363376a624cde5c76e09589cac5f811cc4b32c1f20e533a''
   \<and> hash_chunks [nist56] = ''85e655d6417a17953363376a624cde5c76e09589cac5f811cc4b32c1f20e533a''
   \<and> sha256_standard nist56 =
       ''248d6a61d20638b8e5c026930c3e6039a33ce45964ff2167f6ecedd419db06c1''"
proof -
  have e: "nist56 @ [0x80] @ replicate (pad_count (length nist56)) 0 @ be64 n =
      push_bitlen (nist56 @ [0x80] @ replicate (pad_count (length nist56)) 0) n" for n
    by (simp add: push_bitlen_be64)
  have "sha256_standard nist56 =
      ''248d6a61d20638b8e5c026930c3e6039a33ce45964ff2167f6ecedd419db06c1''"
    by (simp only: sha256_standard_def e words_sample_standard put_hex8_fun [symmetric]
        render_sample_standard)
  then show ?thesis
    by (simp add: hashFile_def hash_chunks_def read_loop_sample final_sample)
qed

section \<open>Properties of the job queue\<close>

lemma apply_op_conserves:
  "apply_op (jq, delivered) x = (jq', delivered') \<Longrightarrow>
   delivered' @ q_items jq' = (delivered @ q_items jq) @ pushed [x]"
  by (cases x) (auto simp: push_def pop_def done_q_def split: list.splits if_splits)

lemma pushed_append: "pushed (xs @ ys) = pushed xs @ pushed ys"
  by (induction xs rule: pushed.induct) auto

lemma run_conserves:
  "foldl apply_op (jq, delivered) ops = (jq', delivered') \<Longrightarrow>
   delivered' @ q_items jq' = delivered @ q_items jq @ pushed ops"
proof (induction ops arbitrary: jq delivered)
  case Nil
  then show ?case by simp
next
  case (Cons x ops)
  obtain jq1 d1 where s: "apply_op (jq, delivered) x = (jq1, d1)"
    by (cases "apply_op (jq, delivered) x")
  from Cons.prems s have "foldl apply_op (jq1, d1) ops = (jq', delivered')"
    by simp
  from Cons.IH [OF this] have "delivered' @ q_items jq' = d1 @ q_items jq1 @ pushed ops" .
  moreover from apply_op_conserves [OF s] have "d1 @ q_items jq1 = (delivered @ q_items jq) @ pushed [x]" .
  moreover have "pushed (x # ops) = pushed [x] @ pushed ops"
    using pushed_append [of "[x]" ops] by simp
  ultimately show ?case by simp
qed

text \<open>
  C6: in every state of the queue, \<^verbatim>\<open>pop\<close> delivers the front item whenever the queue
  is non-empty, whether or not \<^verbatim>\<open>done\<close> has been called; it returns the closed signal
  exactly when the queue is empty and \<^verbatim>\<open>done\<close> has been called, and waits exactly when
  the queue is empty and \<^verbatim>\<open>done\<close> has not been called. After every history of calls
  starting from the empty queue, the items delivered followed by the items still queued
  are the items pushed, in push order: none is lost and none is delivered twice.
\<close>

theorem jobqueue_delivery:
  "(q_items jq \<noteq> [] \<longrightarrow>
      pop jq = (Popped (hd (q_items jq)), jq\<lparr>q_items := tl (q_items jq)\<rparr>))
   \<and> (fst (pop jq) = Closed \<longleftrightarrow> q_items jq = [] \<and> done_flag jq)
   \<and> (fst (pop jq) = Waiting \<longleftrightarrow> q_items jq = [] \<and> \<not> done_flag jq)
   \<and> (foldl apply_op (JobQueue_init, []) ops = (jq', delivered) \<longrightarrow>
        delivered @ q_items jq' = pushed ops)"
proof (intro conjI impI)
  assume "q_items jq \<noteq> []"
  then show "pop jq = (Popped (hd (q_items jq)), jq\<lparr>q_items := tl (q_items jq)\<rparr>)"
    by (cases "q_items jq") (simp_all add: pop_def)
next
  show "fst (pop jq) = Closed \<longleftrightarrow> q_items jq = [] \<and> done_flag jq"
    by (cases "q_items jq") (simp_all add: pop_def)
next
  show "fst (pop jq) = Waiting \<longleftrightarrow> q_items jq = [] \<and> \<not> done_flag jq"
    by (cases "q_items jq") (simp_all add: pop_def)
next
  assume "foldl apply_op (JobQueue_init, []) ops = (jq', delivered)"
  from run_conserves [OF this] show "delivered @ q_items jq' = pushed ops"
    by (simp add: JobQueue_init_def)
qed

theorem jobqueue_delivery_witness:
  "q_items \<lparr>q_items = [''a'', ''b''], done_flag = True\<rparr> \<noteq> []
   \<and> pop \<lparr>q_items = [''a'', ''b''], done_flag = True\<rparr> =
       (Popped ''a'', \<lparr>q_items = [''b''], done_flag = True\<rparr>)
   \<and> foldl apply_op (JobQueue_init, []) [Push ''a'', Push ''b'', Pop, Done, Pop, Pop, Push ''c''] =
       (\<lparr>q_items = [''c''], done_flag = True\<rparr>, [''a'', ''b''])
   \<and> [''a'', ''b''] @ q_items \<lparr>q_items = [''c''], done_flag = True\<rparr> =
       pushed [Push ''a'', Push ''b'', Pop, Done, Pop, Pop, Push ''c'']"
  using jobqueue_delivery [of "\<lparr>q_items = [''a'', ''b''], done_flag = True\<rparr>"
      "[Push ''a'', Push ''b'', Pop, Done, Pop, Pop, Push ''c'']"
      "\<lparr>q_items = [''c''], done_flag = True\<rparr>" "[''a'', ''b'']"]
  by (simp add: JobQueue_init_def push_def pop_def done_q_def)

section \<open>Properties of the queries\<close>

lemma threshold_unat:
  assumes "unat (minMB :: u64) < 2 ^ 44"
  shows "unat (minMB * 1024 * 1024) = unat minMB * 1048576"
proof -
  have "unat (minMB * 1024 * 1024) = unat (minMB * 1048576)"
    by (simp add: mult.assoc)
  also have "\<dots> = (unat minMB * 1048576) mod 2 ^ 64"
    by (simp add: unat_word_ariths)
  also have "\<dots> = unat minMB * 1048576"
    using assms by simp
  finally show ?thesis .
qed

text \<open>
  C7, as amended: for every record store and every threshold \<open>minMB\<close> below \<open>2^44\<close>,
  \<^verbatim>\<open>find\<close> prints exactly the records whose size strictly exceeds
  \<open>minMB \<times> 1,048,576\<close> bytes, one line \<^verbatim>\<open><path> <size>\<close> each, in store order; a
  record whose size equals the threshold is not printed.
\<close>

theorem queryFind_threshold:
  assumes "unat minMB < 2 ^ 44"
  shows "queryFind records minMB =
           concat (map find_line (filter (\<lambda>r. unat minMB * 1048576 < unat (size_f r)) records))"
  using threshold_unat [OF assms]
  by (induction records) (simp_all add: find_line_def word_less_nat_alt)


theorem queryFind_threshold_witness:
  "unat (5 :: u64) < 2 ^ 44
   \<and> queryFind
        [\<lparr>filename = ''a'', path = ''d/a'', size_f = 1048576, mtime = 0, hash = ''''\<rparr>,
         \<lparr>filename = ''b'', path = ''d/b'', size_f = 5242880, mtime = 0, hash = ''''\<rparr>,
         \<lparr>filename = ''c'', path = ''d/c'', size_f = 6291456, mtime = 0, hash = ''''\<rparr>,
         \<lparr>filename = ''e'', path = ''d/e'', size_f = 10485760, mtime = 0, hash = ''''\<rparr>] 5 =
       ''d/c 6291456'' @ [CHR 0x0A] @ ''d/e 10485760'' @ [CHR 0x0A]"
proof -
  have lt: "unat (5 :: u64) < 2 ^ 44"
    by simp
  from queryFind_threshold [OF lt] lt show ?thesis
    by (simp add: find_line_def dec_digits.simps dec_digit_def)
qed

text \<open>
  C7 as stated, for every threshold: with \<open>minMB = 2^44\<close> the product
  \<^verbatim>\<open>minMB * 1024ULL * 1024ULL\<close> wraps to 0, and a record of one byte is printed although
  one byte does not exceed \<open>2^44 \<times> 1,048,576\<close> bytes.
\<close>

theorem queryFind_wraps_counterexample:
  "queryFind [\<lparr>filename = ''a'', path = ''d/a'', size_f = 1, mtime = 0, hash = ''''\<rparr>]
      17592186044416 = ''d/a 1'' @ [CHR 0x0A]
   \<and> \<not> (unat (17592186044416 :: u64) * 1048576 < unat (1 :: u64))"
  by (simp add: dec_digits.simps dec_digit_def)

text \<open>
  C8: for every record store and every name, \<^verbatim>\<open>checksum\<close> prints the hash of the first
  record in store order whose \<^verbatim>\<open>filename\<close> equals the name, and the line
  \<^verbatim>\<open>File not found\<close> when no record matches. It has no failing branch.
\<close>

theorem queryChecksum_first_match:
  "queryChecksum records name =
     (case find (\<lambda>r. filename r = name) records of
        None \<Rightarrow> ''File not found'' @ [CHR 0x0A]
      | Some r \<Rightarrow> hash r @ [CHR 0x0A])
   \<and> ((\<forall>r \<in> set records. filename r \<noteq> name) \<longrightarrow>
        queryChecksum records name = ''File not found'' @ [CHR 0x0A])
   \<and> (records = pre @ r # post \<and> (\<forall>x \<in> set pre. filename x \<noteq> name) \<and> filename r = name \<longrightarrow>
        queryChecksum records name = hash r @ [CHR 0x0A])"
proof (intro conjI impI)
  show "queryChecksum records name =
     (case find (\<lambda>r. filename r = name) records of
        None \<Rightarrow> ''File not found'' @ [CHR 0x0A]
      | Some r \<Rightarrow> hash r @ [CHR 0x0A])"
    by (induction records) simp_all
next
  assume "\<forall>r \<in> set records. filename r \<noteq> name"
  then show "queryChecksum records name = ''File not found'' @ [CHR 0x0A]"
    by (induction records) simp_all
next
  assume "records = pre @ r # post \<and> (\<forall>x \<in> set pre. filename x \<noteq> name) \<and> filename r = name"
  then show "queryChecksum records name = hash r @ [CHR 0x0A]"
    by (induction pre arbitrary: records) auto
qed

theorem queryChecksum_first_match_witness:
  "queryChecksum [\<lparr>filename = ''a'', path = ''d/a'', size_f = 1, mtime = 0, hash = ''h1''\<rparr>] ''x'' =
        ''File not found'' @ [CHR 0x0A]
   \<and> queryChecksum
        [\<lparr>filename = ''b'', path = ''d/b'', size_f = 1, mtime = 0, hash = ''h0''\<rparr>,
         \<lparr>filename = ''a'', path = ''d/a'', size_f = 1, mtime = 0, hash = ''h1''\<rparr>,
         \<lparr>filename = ''a'', path = ''e/a'', size_f = 2, mtime = 0, hash = ''h2''\<rparr>] ''a'' =
        ''h1'' @ [CHR 0x0A]"
proof -
  let ?b = "\<lparr>filename = ''b'', path = ''d/b'', size_f = 1, mtime = 0, hash = ''h0''\<rparr>"
  let ?a1 = "\<lparr>filename = ''a'', path = ''d/a'', size_f = 1, mtime = 0, hash = ''h1''\<rparr>"
  let ?a2 = "\<lparr>filename = ''a'', path = ''e/a'', size_f = 2, mtime = 0, hash = ''h2''\<rparr>"
  have miss: "\<forall>r \<in> set [?a1]. filename r \<noteq> ''x''"
    by simp
  have hit: "[?b, ?a1, ?a2] = [?b] @ ?a1 # [?a2] \<and> (\<forall>x \<in> set [?b]. filename x \<noteq> ''a'') \<and>
      filename ?a1 = ''a''"
    by simp
  from queryChecksum_first_match [of "[?a1]" "''x''"] miss
  have "queryChecksum [?a1] ''x'' = ''File not found'' @ [CHR 0x0A]"
    by blast
  moreover from queryChecksum_first_match [of "[?b, ?a1, ?a2]" "''a''" "[?b]" ?a1 "[?a2]"] hit
  have "queryChecksum [?b, ?a1, ?a2] ''a'' = hash ?a1 @ [CHR 0x0A]"
    by blast
  ultimately show ?thesis
    by simp
qed

section \<open>Properties of the worker and the directory scan\<close>

lemma records_of_simps:
  "records_of env [] = {#}"
  "records_of env (p # ps) =
     (case index_file env p of None \<Rightarrow> {#} | Some r \<Rightarrow> {#r#}) + records_of env ps"
  by (simp_all add: records_of_def split: option.splits)

lemma records_of_append: "records_of env (ps @ qs) = records_of env ps + records_of env qs"
  by (induction ps) (simp_all add: records_of_simps)

lemma mset_push_record:
  "mset (case index_file env p of None \<Rightarrow> records | Some r \<Rightarrow> records @ [r]) =
     mset records + records_of env [p]"
  by (simp add: records_of_simps split: option.splits)

lemma held_update:
  "i < length ws \<Longrightarrow>
   records_of env (held (ws[i := w])) + records_of env (held [ws ! i]) =
     records_of env (held ws) + records_of env (held [w])"
proof (induction ws arbitrary: i)
  case Nil
  then show ?case by simp
next
  case (Cons v ws)
  show ?case
  proof (cases i)
    case 0
    then show ?thesis
      by (cases v; cases w) (simp_all add: records_of_simps)
  next
    case (Suc j)
    with Cons.prems have "j < length ws"
      by simp
    from Cons.IH [OF this] Suc show ?thesis
      by (cases v) (simp_all add: records_of_simps)
  qed
qed

lemma worker_step_outstanding: "outstanding env (worker_step env s i) = outstanding env s"
proof -
  obtain jobs ws records where s: "s = (jobs, ws, records)"
    by (cases s)
  show ?thesis
  proof (cases "i < length ws")
    case False
    with s show ?thesis by simp
  next
    case True
    note upd = held_update [OF True, of env]
    show ?thesis
    proof (cases "ws ! i")
      case Ready
      show ?thesis
      proof (cases "q_items jobs")
        case Nil
        with True Ready s upd [of Returned] show ?thesis
          by (simp add: outstanding_def pop_def records_of_simps ac_simps)
      next
        case (Cons p rest)
        with True Ready s upd [of "Holding p"] show ?thesis
          by (simp add: outstanding_def pop_def records_of_simps ac_simps)
      qed
    next
      case (Holding p)
      with True s upd [of Ready] show ?thesis
        by (simp add: outstanding_def mset_push_record records_of_simps ac_simps)
    next
      case Returned
      with True s show ?thesis by simp
    qed
  qed
qed

lemma worker_step_settled: "settled s \<Longrightarrow> settled (worker_step env s i)"
proof -
  assume st: "settled s"
  obtain jobs ws records where s: "s = (jobs, ws, records)"
    by (cases s)
  show ?thesis
  proof (cases "i < length ws")
    case False
    with s st show ?thesis by simp
  next
    case True
    have sub: "set (ws[i := w]) \<subseteq> insert w (set ws)" for w
      by (rule set_update_subset_insert)
    show ?thesis
    proof (cases "ws ! i")
      case Ready
      show ?thesis
      proof (cases "q_items jobs")
        case Nil
        with True Ready s st show ?thesis
          by (simp add: settled_def pop_def)
      next
        case (Cons p rest)
        have "Returned \<notin> set (ws[i := Holding p])"
        proof
          assume "Returned \<in> set (ws[i := Holding p])"
          with sub [of "Holding p"] have "Returned \<in> set ws"
            by auto
          with st s Cons show False
            by (simp add: settled_def)
        qed
        with True Ready s st Cons show ?thesis
          by (simp add: settled_def pop_def)
      qed
    next
      case (Holding p)
      have "Returned \<in> set (ws[i := Ready]) \<Longrightarrow> Returned \<in> set ws"
        using sub [of Ready] by auto
      with True Holding s st show ?thesis
        by (auto simp: settled_def)
    next
      case Returned
      with True s st show ?thesis by simp
    qed
  qed
qed

lemma worker_step_length:
  "worker_step env (jobs, ws, records) i = (jobs', ws', records') \<Longrightarrow> length ws' = length ws"
  by (auto simp: pop_def split: if_splits wstate.splits list.splits)

lemma steps_invariant:
  "settled s \<Longrightarrow>
   settled (foldl (worker_step env) s sched) \<and>
   outstanding env (foldl (worker_step env) s sched) = outstanding env s"
  by (induction sched arbitrary: s) (simp_all add: worker_step_settled worker_step_outstanding)

lemma steps_length:
  "foldl (worker_step env) (jobs, ws, records) sched = (jobs', ws', records') \<Longrightarrow>
   length ws' = length ws"
proof (induction sched arbitrary: jobs ws records)
  case Nil
  then show ?case by simp
next
  case (Cons i sched)
  obtain j1 w1 r1 where st: "worker_step env (jobs, ws, records) i = (j1, w1, r1)"
    by (cases "worker_step env (jobs, ws, records) i")
  from Cons.prems st have "foldl (worker_step env) (j1, w1, r1) sched = (jobs', ws', records')"
    by simp
  from Cons.IH [OF this] worker_step_length [OF st] show ?case
    by simp
qed

lemma worker_drains:
  "done_flag jq \<Longrightarrow>
   worker env jq records =
     Some (jq\<lparr>q_items := []\<rparr>, records @ List.map_filter (index_file env) (q_items jq))"
proof (induction "q_items jq" arbitrary: jq records)
  case Nil
  then show ?case
    by (simp add: worker.simps [of env jq] pop_def)
next
  case (Cons p rest)
  let ?jq = "jq\<lparr>q_items := rest\<rparr>"
  have "rest = q_items ?jq" "done_flag ?jq"
    using Cons.prems by simp_all
  from Cons.hyps(1) [OF this] Cons.hyps(2) [symmetric] show ?case
    by (simp add: worker.simps [of env jq] pop_def split: option.splits)
qed

lemma worker_idle:
  "done_flag jq \<Longrightarrow> q_items jq = [] \<Longrightarrow> worker env jq records = Some (jq, records)"
  by (simp add: worker_drains)

lemma join_all_idle:
  "done_flag jq \<Longrightarrow> q_items jq = [] \<Longrightarrow>
   join_all env ws jq records =
     Some (jq, records @ List.map_filter (index_file env) (held ws))"
proof (induction ws arbitrary: records)
  case Nil
  then show ?case by simp
next
  case (Cons w ws)
  then show ?case
    by (cases w) (simp_all add: worker_idle split: option.splits)
qed

lemma join_all_drains:
  assumes "done_flag jq" "\<exists>w \<in> set ws. w \<noteq> Returned"
  shows "\<exists>jq' records'. join_all env ws jq records = Some (jq', records') \<and>
           mset records' =
             mset records + records_of env (held ws) + records_of env (q_items jq)"
  using assms
proof (induction ws arbitrary: records)
  case Nil
  then show ?case by simp
next
  case (Cons w ws)
  let ?jq = "jq\<lparr>q_items := []\<rparr>"
  have idle: "done_flag ?jq" "q_items ?jq = []"
    using Cons.prems(1) by simp_all
  show ?case
  proof (cases w)
    case Returned
    with Cons.prems have "\<exists>w \<in> set ws. w \<noteq> Returned"
      by simp
    from Cons.IH [OF Cons.prems(1) this, of records] Returned show ?thesis
      by simp
  next
    case Ready
    with Cons.prems(1) join_all_idle [OF idle, of env ws] show ?thesis
      by (simp add: worker_drains records_of_def ac_simps)
  next
    case (Holding p)
    with Cons.prems(1) join_all_idle [OF idle, of env ws] show ?thesis
      by (simp add: worker_drains records_of_def ac_simps split: option.splits)
  qed
qed

lemma held_replicate_Ready: "held (replicate n Ready) = []"
  by (induction n) simp_all

lemma steps_no_workers: "foldl (worker_step env) (jq, [], records) sched = (jq, [], records)"
  by (induction sched) simp_all

lemma run_workers_none: "run_workers env sched 0 jq = Some (jq, [])"
  by (simp add: run_workers_def steps_no_workers)

lemma run_workers_drains:
  assumes "done_flag jq"
  shows "\<exists>jq' records. run_workers env sched (Suc n) jq = Some (jq', records) \<and>
           mset records = records_of env (q_items jq)"
proof -
  let ?s0 = "(jq, replicate (Suc n) Ready, [] :: Record list)"
  obtain jq1 ws records1 where fin: "foldl (worker_step env) ?s0 sched = (jq1, ws, records1)"
    by (cases "foldl (worker_step env) ?s0 sched")
  have "settled ?s0"
    using assms by (simp add: settled_def)
  from steps_invariant [OF this, of env sched] fin
  have st: "settled (jq1, ws, records1)"
    and out: "outstanding env (jq1, ws, records1) = outstanding env ?s0"
    by simp_all
  have out0: "outstanding env ?s0 = records_of env (q_items jq)"
    using held_replicate_Ready [of "Suc n"] by (simp add: outstanding_def records_of_simps)
  have len: "length ws = Suc n"
    using steps_length [OF fin] by simp
  have done1: "done_flag jq1"
    using st by (simp add: settled_def)
  show ?thesis
  proof (cases "\<exists>w \<in> set ws. w \<noteq> Returned")
    case True
    from join_all_drains [OF done1 True, of env records1] out out0 fin show ?thesis
      by (simp add: run_workers_def outstanding_def)
  next
    case False
    from len obtain w where "w \<in> set ws"
      by (cases ws) auto
    with False have "Returned \<in> set ws"
      by auto
    with st have empty: "q_items jq1 = []"
      by (simp add: settled_def)
    from join_all_idle [OF done1 empty, of env ws records1] out out0 empty fin show ?thesis
      by (simp add: run_workers_def outstanding_def records_of_def)
  qed
qed

lemma enqueue_items:
  "enqueue es jq = Some jq' \<Longrightarrow>
   q_items jq' = q_items jq @ map fst (filter (\<lambda>e. is_regular_file (snd e) = Some True) es)
   \<and> done_flag jq' = done_flag jq"
  by (induction es jq rule: enqueue.induct) (auto simp: push_def split: option.splits if_splits)

lemma enqueue_fails:
  "(enqueue es jq = None) = (\<exists>e \<in> set es. is_regular_file (snd e) = None)"
  by (induction es jq rule: enqueue.induct) (auto split: option.splits)

lemma iter_thrown:
  "snd (iter_dir dir ents) = unopenable_in ents"
  "snd (iter_into p n) = unopenable n"
  by (induction dir ents and p n rule: iter_dir_iter_into.induct)
     (auto split: prod.splits bool.splits)

lemma indexDirectory_thrown:
  assumes "open_root (lookup env root) = Some ents" "unopenable_in ents"
  shows "indexDirectory env sched root workers = Inl TraversalError"
proof -
  obtain entries where "iter_dir root ents = (entries, True)"
    using iter_thrown(1) [of root ents] assms(2) by (cases "iter_dir root ents") simp
  with assms(1) show ?thesis
    by (simp add: indexDirectory_def split: option.splits)
qed

lemma indexDirectory_status_error:
  assumes "open_root (lookup env root) = Some ents" "iter_dir root ents = (entries, thrown)"
    and "enqueue entries JobQueue_init = None"
  shows "indexDirectory env sched root workers = Inl TraversalError"
  using assms by (simp add: indexDirectory_def)

lemma indexDirectory_records:
  assumes "open_root (lookup env root) = Some ents" "iter_dir root ents = (entries, False)"
    and "enqueue entries JobQueue_init = Some jobs"
  shows "\<exists>records. indexDirectory env sched root workers = Inr records \<and>
           mset records =
             (if 0 < workers then records_of env (q_items jobs) else {#})"
proof (cases "0 < workers")
  case True
  then obtain n where n: "nat workers = Suc n"
    by (cases "nat workers") simp_all
  have "done_flag (done_q jobs)"
    by (simp add: done_q_def)
  from run_workers_drains [OF this, of env sched n] assms n True show ?thesis
    by (auto simp: indexDirectory_def done_q_def)
next
  case False
  then have "nat workers = 0"
    by simp
  with assms False show ?thesis
    by (simp add: indexDirectory_def run_workers_none)
qed

lemma indexDirectory_returns: "indexDirectory env sched root workers \<noteq> Inl WorkerBlocked"
proof (cases "open_root (lookup env root)")
  case None
  then show ?thesis
    by (simp add: indexDirectory_def)
next
  case (Some ents)
  obtain entries thrown where it: "iter_dir root ents = (entries, thrown)"
    by (cases "iter_dir root ents")
  show ?thesis
  proof (cases "enqueue entries JobQueue_init")
    case None
    from indexDirectory_status_error [OF Some it None] show ?thesis
      by simp
  next
    case (Some jobs)
    note enq = this
    show ?thesis
    proof (cases thrown)
      case True
      with \<open>open_root (lookup env root) = Some ents\<close> it enq show ?thesis
        by (simp add: indexDirectory_def)
    next
      case False
      with it have "iter_dir root ents = (entries, False)"
        by simp
      from indexDirectory_records [OF \<open>open_root (lookup env root) = Some ents\<close> this enq,
          of sched workers]
      show ?thesis
        by auto
    qed
  qed
qed

lemma index_file_unopened:
  assumes "file_size env p = Some sz" "last_write_time env p = Some t"
    and "open_stream env p = None"
  shows "index_file env p =
           Some \<lparr>filename = filename_of p, path = p, size_f = sz, mtime = t, hash = []\<rparr>"
  using assms by (simp add: index_file_def hashFile_def)

lemma records_of_member:
  "p \<in> set ps \<Longrightarrow> index_file env p = Some r \<Longrightarrow> r \<in># records_of env ps"
  by (induction ps) (auto simp: records_of_simps split: option.splits)

text \<open>
  C2: a path whose content cannot be read should leave no record. For a file whose
  metadata can be read and whose stream cannot be opened, \<^verbatim>\<open>hashFile\<close> returns the
  empty string without throwing, the \<^verbatim>\<open>catch\<close> block is not reached, and a record with
  an empty hash is stored, whatever the schedule of the threads.
\<close>

theorem restricted_file_recorded:
  "indexDirectory env_restricted sched ''data'' 1 =
     Inr [\<lparr>filename = ''secret.txt'', path = ''data/secret.txt'', size_f = 12,
           mtime = 1700000000, hash = ''''\<rparr>]
   \<and> open_stream env_restricted ''data/secret.txt'' = None"
proof -
  let ?r = "\<lparr>filename = ''secret.txt'', path = ''data/secret.txt'', size_f = 12,
             mtime = 1700000000, hash = ''''\<rparr>"
  have it: "iter_dir ''data'' [(''secret.txt'', File)] = ([(''data/secret.txt'', File)], False)"
    by (simp add: path_join_def)
  have op: "open_root (lookup env_restricted ''data'') = Some [(''secret.txt'', File)]"
    by (simp add: env_restricted_def)
  have enq: "enqueue [(''data/secret.txt'', File)] JobQueue_init =
      Some \<lparr>q_items = [''data/secret.txt''], done_flag = False\<rparr>"
    by (simp add: JobQueue_init_def push_def)
  have "records_of env_restricted [''data/secret.txt''] = {#?r#}"
    by (simp add: records_of_simps index_file_def env_restricted_def hashFile_def filename_of_def)
  with indexDirectory_records [OF op it enq, of sched 1]
  obtain records where res: "indexDirectory env_restricted sched ''data'' 1 = Inr records"
    and ms: "mset records = {#?r#}"
    by auto
  from ms have "records = [?r]"
    by (cases records) auto
  with res show ?thesis
    by (simp add: env_restricted_def)
qed

text \<open>
  C3, as amended: when the listing of the root holds a directory that the traversal
  descends into and cannot open, the subtree is not skipped: the iterator throws,
  nothing in \<^verbatim>\<open>indexDirectory\<close> catches it, and the run ends without returning any
  record, whatever the worker count and the schedule, also for the files outside that
  subtree.
\<close>

theorem traversal_error_terminates:
  assumes "open_root (lookup env root) = Some ents"
    and "unopenable_in ents"
  shows "indexDirectory env sched root workers = Inl TraversalError"
  using assms by (rule indexDirectory_thrown)


theorem traversal_error_terminates_witness:
  "open_root (lookup env_locked ''data'') =
     Some [(''a.txt'', File), (''locked'', Dir False [(''hidden.txt'', File)]), (''b.txt'', File)]
   \<and> unopenable_in
        [(''a.txt'', File), (''locked'', Dir False [(''hidden.txt'', File)]), (''b.txt'', File)]
   \<and> indexDirectory env_locked [0, 1, 0, 2] ''data'' 4 = Inl TraversalError"
proof -
  let ?ents = "[(''a.txt'', File), (''locked'', Dir False [(''hidden.txt'', File)]), (''b.txt'', File)]"
  have o: "open_root (lookup env_locked ''data'') = Some ?ents"
    by (simp add: env_locked_def)
  have u: "unopenable_in ?ents"
    by simp
  from traversal_error_terminates [OF o u, of "[0, 1, 0, 2]" 4] o u show ?thesis
    by blast
qed

text \<open>
  C3 as stated: with a subdirectory that cannot be opened between two files that can
  be read, the run ends with the traversal error and no record is returned.
\<close>

theorem locked_subdirectory_counterexample:
  "indexDirectory env_locked [] ''data'' 4 = Inl TraversalError
   \<and> file_size env_locked ''data/a.txt'' = Some 0
   \<and> last_write_time env_locked ''data/a.txt'' = Some 1700000000
   \<and> open_stream env_locked ''data/a.txt'' = Some []"
proof -
  have "open_root (lookup env_locked ''data'') =
      Some [(''a.txt'', File), (''locked'', Dir False [(''hidden.txt'', File)]), (''b.txt'', File)]"
    by (simp add: env_locked_def)
  moreover have "iter_dir ''data''
      [(''a.txt'', File), (''locked'', Dir False [(''hidden.txt'', File)]), (''b.txt'', File)] =
      ([(''data/a.txt'', File), (''data/locked'', Dir False [(''hidden.txt'', File)])], True)"
    by (simp add: path_join_def)
  ultimately have "indexDirectory env_locked [] ''data'' 4 = Inl TraversalError"
    by (simp add: indexDirectory_def split: option.splits)
  then show ?thesis
    by (simp add: env_locked_def)
qed

text \<open>
  C10, as amended: the regular-file test follows symbolic links. When the traversal
  completes and the status of every entry yielded can be read, the paths enqueued are
  exactly the paths of the entries that are regular files after following links, in
  traversal order: an entry that is a symbolic link to a regular file is enqueued, and
  when its metadata can be read and the worker count is positive its record is in the
  result, whatever the schedule. Directories, links to directories, dangling links and
  special files are not enqueued. An entry whose status cannot be read is not skipped:
  the test throws and the run ends without returning any record.
\<close>

theorem symlink_to_file_indexed:
  assumes "open_root (lookup env root) = Some ents"
    and "iter_dir root ents = (entries, False)"
  shows "(enqueue entries JobQueue_init = None) =
           (\<exists>e \<in> set entries. is_regular_file (snd e) = None)
         \<and> (enqueue entries JobQueue_init = None \<longrightarrow>
               indexDirectory env sched root workers = Inl TraversalError)
         \<and> (enqueue entries JobQueue_init = Some jobs \<longrightarrow>
               q_items jobs =
                 map fst (filter (\<lambda>e. is_regular_file (snd e) = Some True) entries))
         \<and> is_regular_file (Symlink (Some target)) = is_regular_file target
         \<and> is_regular_file (Symlink (Some File)) = Some True
         \<and> is_regular_file (Dir readable es) = Some False
         \<and> is_regular_file (Symlink (Some (Dir readable es))) = Some False
         \<and> is_regular_file (Symlink None) = Some False
         \<and> is_regular_file Special = Some False
         \<and> is_regular_file BadLink = None
         \<and> (enqueue entries JobQueue_init = Some jobs \<and>
             is_regular_file target = Some True \<and> (p, Symlink (Some target)) \<in> set entries \<longrightarrow>
               p \<in> set (q_items jobs))
         \<and> (enqueue entries JobQueue_init = Some jobs \<and>
             is_regular_file target = Some True \<and> (p, Symlink (Some target)) \<in> set entries \<and>
             file_size env p = Some sz \<and> last_write_time env p = Some tm \<and> 0 < workers \<longrightarrow>
               (\<exists>records. indexDirectory env sched root workers = Inr records \<and>
                  \<lparr>filename = filename_of p, path = p, size_f = sz, mtime = tm,
                   hash = hashFile (open_stream env p)\<rparr> \<in> set records))"
proof (intro conjI impI)
  show "(enqueue entries JobQueue_init = None) =
           (\<exists>e \<in> set entries. is_regular_file (snd e) = None)"
    by (rule enqueue_fails)
  {
    assume "enqueue entries JobQueue_init = None"
    with assms show "indexDirectory env sched root workers = Inl TraversalError"
      by (rule indexDirectory_status_error)
  }
  {
    assume "enqueue entries JobQueue_init = Some jobs"
    from enqueue_items [OF this]
    show "q_items jobs = map fst (filter (\<lambda>e. is_regular_file (snd e) = Some True) entries)"
      by (simp add: JobQueue_init_def)
  } note q = this
  {
    assume a: "enqueue entries JobQueue_init = Some jobs \<and>
             is_regular_file target = Some True \<and> (p, Symlink (Some target)) \<in> set entries"
    then have "p \<in> fst ` set (filter (\<lambda>e. is_regular_file (snd e) = Some True) entries)"
      by force
    with a q show "p \<in> set (q_items jobs)"
      by (simp only: set_map)
  } note enq = this
  {
    assume a: "enqueue entries JobQueue_init = Some jobs \<and>
             is_regular_file target = Some True \<and> (p, Symlink (Some target)) \<in> set entries \<and>
             file_size env p = Some sz \<and> last_write_time env p = Some tm \<and> 0 < workers"
    let ?r = "\<lparr>filename = filename_of p, path = p, size_f = sz, mtime = tm,
                hash = hashFile (open_stream env p)\<rparr>"
    from a enq have "p \<in> set (q_items jobs)"
      by blast
    moreover from a have "index_file env p = Some ?r"
      by (simp add: index_file_def)
    ultimately have "?r \<in># records_of env (q_items jobs)"
      by (rule records_of_member)
    moreover from a have e: "enqueue entries JobQueue_init = Some jobs"
      by blast
    from indexDirectory_records [OF assms e, of sched workers] a
    obtain records where "indexDirectory env sched root workers = Inr records"
      and "mset records = records_of env (q_items jobs)"
      by auto
    ultimately show "\<exists>records. indexDirectory env sched root workers = Inr records \<and>
        ?r \<in> set records"
      by (metis set_mset_mset)
  }
qed simp_all


theorem symlink_to_file_indexed_witness:
  "open_root (lookup env_links ''data'') = Some tree_links
   \<and> iter_dir ''data'' tree_links = (entries_links, False)
   \<and> enqueue entries_links JobQueue_init =
        Some \<lparr>q_items = [''data/real.txt'', ''data/link.txt'', ''data/sub/x.bin''],
              done_flag = False\<rparr>
   \<and> is_regular_file File = Some True
   \<and> (''data/link.txt'', Symlink (Some File)) \<in> set entries_links
   \<and> file_size env_links ''data/link.txt'' = Some 0
   \<and> last_write_time env_links ''data/link.txt'' = Some 1700000000
   \<and> (\<exists>records. indexDirectory env_links [1, 0, 1, 3, 0] ''data'' 4 = Inr records \<and>
          \<lparr>filename = ''link.txt'', path = ''data/link.txt'', size_f = 0, mtime = 1700000000,
           hash = ''e3b0c44298fc1c149afbf4c8996fb92427ae41e4649b934ca495991b7852b855''\<rparr>
            \<in> set records)
   \<and> open_root (lookup env_loop ''data'') = Some tree_loop
   \<and> iter_dir ''data'' tree_loop = (entries_loop, False)
   \<and> enqueue entries_loop JobQueue_init = None
   \<and> indexDirectory env_loop [1, 0] ''data'' 2 = Inl TraversalError"
proof -
  have o: "open_root (lookup env_links ''data'') = Some tree_links"
    by (simp add: env_links_def)
  have it: "iter_dir ''data'' tree_links = (entries_links, False)"
    by (simp add: tree_links_def entries_links_def path_join_def)
  have enq: "enqueue entries_links JobQueue_init =
      Some \<lparr>q_items = [''data/real.txt'', ''data/link.txt'', ''data/sub/x.bin''],
            done_flag = False\<rparr>"
    by (simp add: entries_links_def JobQueue_init_def push_def)
  have mem: "(''data/link.txt'', Symlink (Some File)) \<in> set entries_links"
    by (simp add: entries_links_def)
  have fs: "file_size env_links ''data/link.txt'' = Some 0"
    and lw: "last_write_time env_links ''data/link.txt'' = Some 1700000000"
    and os: "open_stream env_links ''data/link.txt'' = Some []"
    by (simp_all add: env_links_def)
  have fn: "filename_of ''data/link.txt'' = ''link.txt''"
    by (simp add: filename_of_def)
  have hs: "hashFile (Some []) =
      ''e3b0c44298fc1c149afbf4c8996fb92427ae41e4649b934ca495991b7852b855''"
    by (simp add: hashFile_def read_loop_Nil final_empty)
  note inst = symlink_to_file_indexed [OF o it, where target = File
      and p = "''data/link.txt''" and sz = 0 and tm = 1700000000 and workers = 4
      and sched = "[1, 0, 1, 3, 0]"
      and jobs = "\<lparr>q_items = [''data/real.txt'', ''data/link.txt'', ''data/sub/x.bin''],
            done_flag = False\<rparr>"]
  from inst enq mem fs lw
  have "\<exists>records. indexDirectory env_links [1, 0, 1, 3, 0] ''data'' 4 = Inr records \<and>
      \<lparr>filename = filename_of ''data/link.txt'', path = ''data/link.txt'', size_f = 0,
       mtime = 1700000000, hash = hashFile (open_stream env_links ''data/link.txt'')\<rparr>
        \<in> set records"
    by simp
  then have rec: "\<exists>records. indexDirectory env_links [1, 0, 1, 3, 0] ''data'' 4 = Inr records \<and>
          \<lparr>filename = ''link.txt'', path = ''data/link.txt'', size_f = 0, mtime = 1700000000,
           hash = ''e3b0c44298fc1c149afbf4c8996fb92427ae41e4649b934ca495991b7852b855''\<rparr>
            \<in> set records"
    by (simp only: fn os hs)
  have o': "open_root (lookup env_loop ''data'') = Some tree_loop"
    by (simp add: env_loop_def)
  have it': "iter_dir ''data'' tree_loop = (entries_loop, False)"
    by (simp add: tree_loop_def entries_loop_def path_join_def)
  have enq': "enqueue entries_loop JobQueue_init = None"
    by (simp add: entries_loop_def)
  from symlink_to_file_indexed [OF o' it', where sched = "[1, 0]" and workers = 2] enq'
  have ab: "indexDirectory env_loop [1, 0] ''data'' 2 = Inl TraversalError"
    by blast
  from o it enq mem fs lw rec o' it' enq' ab show ?thesis
    by simp
qed

text \<open>
  C10 as stated: with a worker count of 0 the link to a regular file is enqueued and no
  record is produced for it; and in a directory that also holds a link whose status
  cannot be read, the run ends with the error and the link to a regular file produces
  no record.
\<close>

theorem symlink_no_record_counterexample:
  "(''data/link.txt'', Symlink (Some File)) \<in> set entries_links
   \<and> file_size env_links ''data/link.txt'' = Some 0
   \<and> last_write_time env_links ''data/link.txt'' = Some 1700000000
   \<and> open_stream env_links ''data/link.txt'' = Some []
   \<and> indexDirectory env_links [] ''data'' 0 = Inr []
   \<and> (''data/link.txt'', Symlink (Some File)) \<in> set entries_loop
   \<and> file_size env_loop ''data/link.txt'' = Some 0
   \<and> indexDirectory env_loop [] ''data'' 4 = Inl TraversalError"
proof -
  have o: "open_root (lookup env_links ''data'') = Some tree_links"
    by (simp add: env_links_def)
  have it: "iter_dir ''data'' tree_links = (entries_links, False)"
    by (simp add: tree_links_def entries_links_def path_join_def)
  have enq: "enqueue entries_links JobQueue_init =
      Some \<lparr>q_items = [''data/real.txt'', ''data/link.txt'', ''data/sub/x.bin''],
            done_flag = False\<rparr>"
    by (simp add: entries_links_def JobQueue_init_def push_def)
  have zero: "indexDirectory env_links [] ''data'' 0 = Inr []"
    using o it enq by (simp add: indexDirectory_def run_workers_def)
  have loop: "indexDirectory env_loop [] ''data'' 4 = Inl TraversalError"
    by (simp add: indexDirectory_def env_loop_def tree_loop_def path_join_def JobQueue_init_def
        push_def)
  from zero loop show ?thesis
    by (simp add: entries_links_def entries_loop_def env_links_def env_loop_def)
qed

section \<open>Properties of \<^verbatim>\<open>main\<close>\<close>

text \<open>
  C5: an invocation of \<^verbatim>\<open>find\<close> or \<^verbatim>\<open>checksum\<close> without its third operand should
  exit with code 1 before indexing. With \<^verbatim>\<open>argc = 3\<close> the guard \<^verbatim>\<open>argc < 3\<close> lets the
  invocation through: \<^verbatim>\<open>indexDirectory\<close> runs with 4 workers, and the process then
  ends abnormally on \<^verbatim>\<open>argv[3]\<close>, not with code 1, whatever the schedule of the
  threads. With fewer than three arguments the exit code is 1.
\<close>

theorem main_missing_operand:
  "status (main env sched [prog, ''find'', root]) = Abort
   \<and> status (main env sched [prog, ''checksum'', root]) = Abort
   \<and> indexed (main env sched [prog, ''find'', root]) =
       (case indexDirectory env sched root 4 of Inl e \<Rightarrow> None | Inr records \<Rightarrow> Some records)
   \<and> indexed (main env sched [prog, ''checksum'', root]) =
       (case indexDirectory env sched root 4 of Inl e \<Rightarrow> None | Inr records \<Rightarrow> Some records)
   \<and> status (main env sched [prog, mode]) = Exit 1"
  using indexDirectory_returns [of env sched root 4]
  by (simp add: main_def Let_def split: sum.splits error.splits)

end
